theory Spec2Isabelle
  imports Complex_Main "HOL-Library.Sublist"
begin

section \<open>Shared constants and data models (common/constants.py, common/models.py)\<close>

text \<open>
  Speeds are Python floats (or ints) compared with the integer constants 10 and 40.
  Python compares a finite float with an int exactly, so a speed is modelled by the
  real number it denotes.
\<close>

definition CONGESTION_ALTA_MAX_SPEED :: real where
  "CONGESTION_ALTA_MAX_SPEED = 10"

definition CONGESTION_BAJA_MIN_SPEED :: real where
  "CONGESTION_BAJA_MIN_SPEED = 40"

definition CONGESTION_ALTA :: string where
  "CONGESTION_ALTA = ''ALTA''"

definition CONGESTION_NORMAL :: string where
  "CONGESTION_NORMAL = ''NORMAL''"

definition CONGESTION_BAJA :: string where
  "CONGESTION_BAJA = ''BAJA''"

definition SENSOR_TYPE_GPS :: string where
  "SENSOR_TYPE_GPS = ''gps''"

definition get_congestion_level :: "real \<Rightarrow> string" where
  "get_congestion_level velocidad_promedio =
     (if velocidad_promedio < CONGESTION_ALTA_MAX_SPEED then CONGESTION_ALTA
      else if velocidad_promedio > CONGESTION_BAJA_MIN_SPEED then CONGESTION_BAJA
      else CONGESTION_NORMAL)"

subsection \<open>GPSEvent (common/models.py)\<close>

text \<open>
  A dataclass does not check the types of its fields, so a field holds any Python
  value. The values that JSON scalars give are modelled; comparing a string or None
  with an int raises TypeError in Python, and a bool is compared as the int 0 or 1.
\<close>

datatype pyval = PNone | PBool bool | PNum real | PStr string

datatype py_error = TypeError

fun num_of :: "pyval \<Rightarrow> real option" where
  "num_of (PNum r) = Some r"
| "num_of (PBool b) = Some (if b then 1 else 0)"
| "num_of PNone = None"
| "num_of (PStr s) = None"

text \<open>\<open>get_congestion_level\<close> applied to an arbitrary Python value.\<close>

definition get_congestion_level_dyn :: "pyval \<Rightarrow> py_error + string" where
  "get_congestion_level_dyn x =
     (case num_of x of None \<Rightarrow> Inl TypeError | Some v \<Rightarrow> Inr (get_congestion_level v))"

record GPSEvent =
  sensor_id :: pyval
  tipo_sensor :: pyval
  interseccion :: pyval
  nivel_congestion :: pyval
  velocidad_promedio :: pyval
  timestamp :: pyval

definition GPSEvent_post_init :: "GPSEvent \<Rightarrow> py_error + GPSEvent" where
  "GPSEvent_post_init self =
     (case get_congestion_level_dyn (velocidad_promedio self) of
        Inl e \<Rightarrow> Inl e
      | Inr lvl \<Rightarrow> Inr (self\<lparr>nivel_congestion := PStr lvl\<rparr>))"

definition or_default :: "'a option \<Rightarrow> 'a \<Rightarrow> 'a" where
  "or_default arg d = (case arg of None \<Rightarrow> d | Some x \<Rightarrow> x)"

text \<open>
  The generated constructor: \<open>sensor_id\<close> is required, an argument that is not
  supplied (\<open>None\<close> here) takes the field's default, and \<open>now\<close> is what the
  default factory \<open>now_iso()\<close> returns at the call. \<open>__post_init__\<close> runs last.
\<close>

definition GPSEvent_init ::
  "string \<Rightarrow> pyval \<Rightarrow> pyval option \<Rightarrow> pyval option \<Rightarrow> pyval option \<Rightarrow> pyval option
     \<Rightarrow> pyval option \<Rightarrow> py_error + GPSEvent" where
  "GPSEvent_init now sid ts isec nc vp tstamp =
     GPSEvent_post_init
       \<lparr>sensor_id = sid,
        tipo_sensor = or_default ts (PStr SENSOR_TYPE_GPS),
        interseccion = or_default isec (PStr []),
        nivel_congestion = or_default nc (PStr CONGESTION_NORMAL),
        velocidad_promedio = or_default vp (PNum 0),
        timestamp = or_default tstamp (PStr now)\<rparr>"

text \<open>
  \<open>from_dict\<close> keeps the keys that are fields of the dataclass and passes them as
  keyword arguments; a dictionary without \<open>sensor_id\<close> makes the constructor raise
  TypeError.
\<close>

definition GPSEvent_from_dict :: "string \<Rightarrow> (string \<rightharpoonup> pyval) \<Rightarrow> py_error + GPSEvent" where
  "GPSEvent_from_dict now data =
     (case data ''sensor_id'' of
        None \<Rightarrow> Inl TypeError
      | Some sid \<Rightarrow>
          GPSEvent_init now sid (data ''tipo_sensor'') (data ''interseccion'')
            (data ''nivel_congestion'') (data ''velocidad_promedio'') (data ''timestamp''))"

section \<open>The configuration singleton (common/config_loader.py)\<close>

text \<open>
  \<open>CityConfig(path)\<close> opens the file and parses it; both can raise. The file
  system is a function from a path to the parsed content or the error, and may differ
  from one call to the next. A \<open>CityConfig\<close> object lives on a heap, and a reference
  to it is its index there, so that "the same instance" is equality of references.
\<close>

datatype io_error = FileNotFoundError | JSONDecodeError

record 'c CityConfig =
  config :: 'c

record 'c loader_state =
  heap :: "'c CityConfig list"
  config_instance :: "nat option"

definition CityConfig_init ::
  "(string \<Rightarrow> io_error + 'c) \<Rightarrow> string \<Rightarrow> 'c loader_state \<Rightarrow> io_error + (nat \<times> 'c loader_state)" where
  "CityConfig_init fs config_path st =
     (case fs config_path of
        Inl e \<Rightarrow> Inl e
      | Inr c \<Rightarrow> Inr (length (heap st), st\<lparr>heap := heap st @ [\<lparr>config = c\<rparr>]\<rparr>))"

definition get_config ::
  "(string \<Rightarrow> io_error + 'c) \<Rightarrow> string \<Rightarrow> 'c loader_state \<Rightarrow> (io_error + nat) \<times> 'c loader_state" where
  "get_config fs config_path st =
     (case config_instance st of
        None \<Rightarrow>
          (case CityConfig_init fs config_path st of
             Inl e \<Rightarrow> (Inl e, st)
           | Inr (r, st') \<Rightarrow> (Inr r, st'\<lparr>config_instance := Some r\<rparr>))
      | Some r \<Rightarrow> (Inr r, st))"

text \<open>The module as imported: no object allocated, \<open>_config_instance = None\<close>.\<close>

definition loader_init :: "'c loader_state" where
  "loader_init = \<lparr>heap = [], config_instance = None\<rparr>"

section \<open>The transport, as the relays use it\<close>

text \<open>
  A frame is the Python string that \<open>recv_string\<close> returns and \<open>send_string\<close>
  takes. A SUB socket keeps the frames the connected producer published that start with
  the subscribed prefix, oldest first. \<open>poll\<close> with a timeout returns whether a frame
  is waiting; with no timeout it would wait for one forever. \<open>recv_string\<close> has no
  timeout: on an empty socket it waits forever. A PUB socket takes every frame sent, so
  \<open>send_string\<close> on it does not wait. \<open>send_string\<close> on a PUSH socket has no
  timeout either: it puts the frame into the pipe while the PULL socket at the other end
  is open, and waits forever once that socket is closed. A call that waits forever
  returns only by raising. Any of these calls can raise. Frames of one producer reach
  its subscribers in the order sent.
\<close>

type_synonym frame = string

datatype exn = ZMQError | KeyboardInterrupt

datatype call = Poll | Recv | Send

datatype outcome = Normal | Raise exn | Block

datatype pc = AtSetup | AtWhile | AtPoll | Blocked | Returned | Raised exn

record sub_socket =
  topic_filter :: string
  inbox :: "frame list"
  sub_closed :: bool

definition sub_connect :: "string \<Rightarrow> sub_socket" where
  "sub_connect topic = \<lparr>topic_filter = topic, inbox = [], sub_closed = False\<rparr>"

definition sub_deliver :: "frame \<Rightarrow> sub_socket \<Rightarrow> sub_socket" where
  "sub_deliver f sub =
     (if \<not> sub_closed sub \<and> prefix (topic_filter sub) f
      then sub\<lparr>inbox := inbox sub @ [f]\<rparr> else sub)"

definition sub_close :: "sub_socket \<Rightarrow> sub_socket" where
  "sub_close sub = sub\<lparr>sub_closed := True\<rparr>"

definition zmq_poll :: "nat option \<Rightarrow> bool \<Rightarrow> bool option" where
  "zmq_poll timeout readable =
     (if readable then Some True else case timeout of None \<Rightarrow> None | Some t \<Rightarrow> Some False)"

definition recv_string :: "sub_socket \<Rightarrow> (frame \<times> sub_socket) option" where
  "recv_string sub =
     (case inbox sub of [] \<Rightarrow> None | f # fs \<Rightarrow> Some (f, sub\<lparr>inbox := fs\<rparr>))"

text \<open>\<open>message.split(" ", 1)[0]\<close>: the frame up to its first space.\<close>

definition topic_of :: "frame \<Rightarrow> string" where
  "topic_of message = takeWhile (\<lambda>c. c \<noteq> CHR '' '') message"

datatype log_level = DEBUG | INFO | ERROR

datatype log_entry =
    LogSignal
  | LogForward nat string nat
  | LogInterrupted
  | LogShutdown nat
  | LogWorkerConnected string string
  | LogWorkerForwarded string nat
  | LogWorkerError string
  | LogWorkerShutdown string nat
  | LogCollectorError
  | LogCollectorShutdown nat

fun level_of :: "log_entry \<Rightarrow> log_level" where
  "level_of (LogWorkerForwarded n k) = DEBUG"
| "level_of (LogWorkerError n) = ERROR"
| "level_of LogCollectorError = ERROR"
| "level_of e = INFO"

text \<open>
  What the environment makes a step raise: the call, the subscription it is made on
  (ignored by a thread that has only one), and the exception.
\<close>

type_synonym fault = "(nat \<times> call \<times> exn) option"

fun raised_at :: "fault \<Rightarrow> nat \<Rightarrow> call \<Rightarrow> exn option" where
  "raised_at None i c = None"
| "raised_at (Some (j, c', e)) i c = (if j = i \<and> c' = c then Some e else None)"

text \<open>The same for a call that is not made on one subscription.\<close>

fun raised_in :: "fault \<Rightarrow> call \<Rightarrow> exn option" where
  "raised_in None c = None"
| "raised_in (Some (j, c', e)) c = (if c' = c then Some e else None)"

section \<open>The single-threaded relay (pc1/broker.py)\<close>

record std_state =
  running :: bool
  subscribers :: "sub_socket list"
  publisher_sent :: "frame list"
  publisher_closed :: bool
  context_terminated :: bool
  event_count :: nat
  logged :: "log_entry list"
  std_pc :: pc

definition std_sensor_ports :: "(string \<times> string) list" where
  "std_sensor_ports =
     [(''sensor_camera_pub'', ''camara''),
      (''sensor_inductive_pub'', ''espira''),
      (''sensor_gps_pub'', ''gps'')]"

text \<open>
  The state when \<open>run_broker_standard\<close> reaches its loop: the publisher bound, one
  SUB socket per sensor port in the order of \<open>sensor_ports\<close>, nothing forwarded yet.
\<close>

definition std_init :: std_state where
  "std_init =
     \<lparr>running = True,
      subscribers = map (\<lambda>(port_name, topic). sub_connect topic) std_sensor_ports,
      publisher_sent = [],
      publisher_closed = False,
      context_terminated = False,
      event_count = 0,
      logged = [],
      std_pc = AtWhile\<rparr>"

definition std_signal_handler :: "std_state \<Rightarrow> std_state" where
  "std_signal_handler s = s\<lparr>logged := logged s @ [LogSignal], running := False\<rparr>"

text \<open>The body of \<open>if sub in socks and socks[sub] == zmq.POLLIN\<close> for subscriber \<open>i\<close>.\<close>

definition std_forward :: "fault \<Rightarrow> nat \<Rightarrow> std_state \<Rightarrow> outcome \<times> std_state" where
  "std_forward flt i s =
     (case raised_at flt i Recv of
        Some e \<Rightarrow> (Raise e, s)
      | None \<Rightarrow>
          (case recv_string (subscribers s ! i) of
             None \<Rightarrow> (Block, s)
           | Some (message, sub') \<Rightarrow>
               (let s1 = s\<lparr>subscribers := (subscribers s)[i := sub']\<rparr> in
                case raised_at flt i Send of
                  Some e \<Rightarrow> (Raise e, s1)
                | None \<Rightarrow>
                    (Normal,
                     s1\<lparr>publisher_sent := publisher_sent s1 @ [message],
                        event_count := event_count s1 + 1,
                        logged := logged s1 @
                          [LogForward (event_count s1 + 1) (topic_of message)
                             (length message)]\<rparr>))))"

text \<open>\<open>for sub in subscribers\<close>, over the indices of the subscribers.\<close>

fun std_for_subs :: "fault \<Rightarrow> bool list \<Rightarrow> nat list \<Rightarrow> std_state \<Rightarrow> outcome \<times> std_state" where
  "std_for_subs flt socks [] s = (Normal, s)"
| "std_for_subs flt socks (i # rest) s =
     (if socks ! i then
        (case std_forward flt i s of
           (Normal, s') \<Rightarrow> std_for_subs flt socks rest s'
         | (out, s') \<Rightarrow> (out, s'))
      else std_for_subs flt socks rest s)"

text \<open>
  \<open>poller.poll(timeout)\<close> over the registered sockets: which of them have a frame
  waiting. With no socket ready it returns after the timeout, if there is one.
\<close>

definition poller_poll :: "nat option \<Rightarrow> sub_socket list \<Rightarrow> bool list option" where
  "poller_poll timeout subs =
     (let socks = map (\<lambda>sub. inbox sub \<noteq> []) subs in
      case zmq_poll timeout (True \<in> set socks) of
        None \<Rightarrow> None
      | Some r \<Rightarrow> Some socks)"

definition std_finally :: "std_state \<Rightarrow> std_state" where
  "std_finally s =
     s\<lparr>logged := logged s @ [LogShutdown (event_count s)],
       subscribers := map sub_close (subscribers s),
       publisher_closed := True,
       context_terminated := True\<rparr>"

text \<open>
  An exception leaving the loop: \<open>except KeyboardInterrupt\<close> logs and swallows it,
  any other exception goes on to the caller; \<open>finally\<close> runs in both cases.
\<close>

definition std_except :: "exn \<Rightarrow> std_state \<Rightarrow> std_state" where
  "std_except e s =
     (case e of
        KeyboardInterrupt \<Rightarrow>
          (std_finally (s\<lparr>logged := logged s @ [LogInterrupted]\<rparr>))\<lparr>std_pc := Returned\<rparr>
      | ZMQError \<Rightarrow> (std_finally s)\<lparr>std_pc := Raised ZMQError\<rparr>)"

text \<open>One pass of the loop body: the poll, then the \<open>for\<close> loop.\<close>

definition std_iteration :: "fault \<Rightarrow> std_state \<Rightarrow> std_state" where
  "std_iteration flt s =
     (case raised_in flt Poll of
        Some e \<Rightarrow> std_except e s
      | None \<Rightarrow>
          (case poller_poll (Some 1000) (subscribers s) of
             None \<Rightarrow> s\<lparr>std_pc := Blocked\<rparr>
           | Some socks \<Rightarrow>
               (case std_for_subs flt socks [0..<length (subscribers s)] s of
                  (Normal, s') \<Rightarrow> s'\<lparr>std_pc := AtWhile\<rparr>
                | (Raise e, s') \<Rightarrow> std_except e s'
                | (Block, s') \<Rightarrow> s'\<lparr>std_pc := Blocked\<rparr>)))"

text \<open>
  The relay's thread advances by one action: the test of \<open>while _running\<close>, or one
  pass of the body. A thread that has returned, raised or is blocked does nothing.
\<close>

definition std_step :: "fault \<Rightarrow> std_state \<Rightarrow> std_state" where
  "std_step flt s =
     (case std_pc s of
        AtWhile \<Rightarrow> (if running s then s\<lparr>std_pc := AtPoll\<rparr>
                    else (std_finally s)\<lparr>std_pc := Returned\<rparr>)
      | AtPoll \<Rightarrow> std_iteration flt s
      | _ \<Rightarrow> s)"

text \<open>
  What happens around the relay: the producer behind subscription \<open>i\<close> publishes a
  frame, a termination signal is delivered (the handler runs between two actions of the
  thread), or the thread takes its next action.
\<close>

datatype std_event = Arrive nat frame | Signal | Step fault

fun std_apply :: "std_state \<Rightarrow> std_event \<Rightarrow> std_state" where
  "std_apply s (Arrive i f) =
     (if i < length (subscribers s)
      then s\<lparr>subscribers := (subscribers s)[i := sub_deliver f (subscribers s ! i)]\<rparr>
      else s)"
| "std_apply s Signal = std_signal_handler s"
| "std_apply s (Step flt) = std_step flt s"

definition std_run :: "std_event list \<Rightarrow> std_state \<Rightarrow> std_state" where
  "std_run evs s = foldl std_apply s evs"

text \<open>The frames the producer behind subscription \<open>i\<close> published on \<open>topic\<close>, in order.\<close>

definition std_offered :: "nat \<Rightarrow> string \<Rightarrow> std_event list \<Rightarrow> frame list" where
  "std_offered i topic evs =
     concat (map (\<lambda>ev. case ev of Arrive j f \<Rightarrow> (if j = i \<and> prefix topic f then [f] else [])
                              | _ \<Rightarrow> []) evs)"

section \<open>The multi-threaded relay (pc1/broker_threaded.py)\<close>

text \<open>
  Each worker owns a SUB socket and a PUSH socket connected to the in-process address;
  the collector owns the PULL socket bound there and the PUB socket. A PULL socket keeps
  one queue per connected PUSH socket and takes the next frame from any of them that
  is not empty, so the pipe is one queue per worker.

  A worker first creates, connects and subscribes its sockets, outside any handler, and
  then enters the \<open>try\<close> statement with its loop. The function
  \<open>run_broker_threaded\<close> that starts the threads names \<open>_running\<close> in a
  \<open>global\<close> statement only after reading it in its loop, which Python 3 refuses
  when it compiles the module; the two thread functions are modelled as they are written.
\<close>

record worker =
  w_name :: string
  w_topic :: string
  w_sub :: sub_socket
  w_pipe :: "frame list"
  w_push_closed :: bool
  w_count :: nat
  w_pc :: pc

record collector =
  pull_closed :: bool
  pub_sent :: "frame list"
  pub_closed :: bool
  c_event_count :: nat
  c_pc :: pc

record thr_state =
  thr_running :: bool
  workers :: "worker list"
  coll :: collector
  thr_logged :: "log_entry list"

definition thr_sensor_ports :: "(string \<times> string \<times> string) list" where
  "thr_sensor_ports =
     [(''sensor_camera_pub'', ''camara'', ''Thread-Camera''),
      (''sensor_inductive_pub'', ''espira'', ''Thread-Inductive''),
      (''sensor_gps_pub'', ''gps'', ''Thread-GPS'')]"

text \<open>
  A worker thread as \<open>run_broker_threaded\<close> starts it, before it has created its
  sockets (the socket fields then stand for sockets that are not there yet: no frame
  reaches them and nothing has closed them), and a worker that has set them up and
  stands before the first test of its loop.
\<close>

definition worker_boot :: "string \<Rightarrow> string \<Rightarrow> worker" where
  "worker_boot topic thread_name =
     \<lparr>w_name = thread_name, w_topic = topic, w_sub = sub_connect topic, w_pipe = [],
      w_push_closed = False, w_count = 0, w_pc = AtSetup\<rparr>"

definition worker_start :: "string \<Rightarrow> string \<Rightarrow> worker" where
  "worker_start topic thread_name =
     \<lparr>w_name = thread_name, w_topic = topic, w_sub = sub_connect topic, w_pipe = [],
      w_push_closed = False, w_count = 0, w_pc = AtWhile\<rparr>"

text \<open>
  The collector is started first and is in its loop when the workers are started:
  \<open>thr_boot\<close> is the state with the workers just started, \<open>thr_init\<close> the state
  once every worker has set up its sockets.
\<close>

definition thr_boot :: thr_state where
  "thr_boot =
     \<lparr>thr_running = True,
      workers = map (\<lambda>(port, topic, name). worker_boot topic name) thr_sensor_ports,
      coll = \<lparr>pull_closed = False, pub_sent = [], pub_closed = False,
              c_event_count = 0, c_pc = AtWhile\<rparr>,
      thr_logged = []\<rparr>"

definition thr_init :: thr_state where
  "thr_init =
     \<lparr>thr_running = True,
      workers = map (\<lambda>(port, topic, name). worker_start topic name) thr_sensor_ports,
      coll = \<lparr>pull_closed = False, pub_sent = [], pub_closed = False,
              c_event_count = 0, c_pc = AtWhile\<rparr>,
      thr_logged = []\<rparr>"

definition thr_signal_handler :: "thr_state \<Rightarrow> thr_state" where
  "thr_signal_handler s = s\<lparr>thr_logged := thr_logged s @ [LogSignal], thr_running := False\<rparr>"

text \<open>\<open>logging.basicConfig(level=logging.INFO)\<close>: a DEBUG record is not written.\<close>

definition emit :: "log_entry \<Rightarrow> log_entry list \<Rightarrow> log_entry list" where
  "emit entry lg = (if level_of entry = DEBUG then lg else lg @ [entry])"

definition set_worker :: "nat \<Rightarrow> worker \<Rightarrow> thr_state \<Rightarrow> thr_state" where
  "set_worker i w s = s\<lparr>workers := (workers s)[i := w]\<rparr>"

subsection \<open>\<open>_subscriber_worker\<close>\<close>

definition worker_finally :: "nat \<Rightarrow> thr_state \<Rightarrow> thr_state" where
  "worker_finally i s =
     (let w = workers s ! i in
      set_worker i (w\<lparr>w_sub := sub_close (w_sub w), w_push_closed := True\<rparr>)
        (s\<lparr>thr_logged := emit (LogWorkerShutdown (w_name w) (w_count w)) (thr_logged s)\<rparr>))"

text \<open>
  \<open>except zmq.ZMQError\<close> logs the error only while \<open>_running\<close> holds and swallows
  it; any other exception leaves the thread's function. \<open>finally\<close> runs in both cases.
\<close>

definition worker_except :: "exn \<Rightarrow> nat \<Rightarrow> thr_state \<Rightarrow> thr_state" where
  "worker_except e i s =
     (case e of
        ZMQError \<Rightarrow>
          (let s1 = (if thr_running s
                     then s\<lparr>thr_logged := emit (LogWorkerError (w_name (workers s ! i))) (thr_logged s)\<rparr>
                     else s);
               s2 = worker_finally i s1
           in set_worker i ((workers s2 ! i)\<lparr>w_pc := Returned\<rparr>) s2)
      | KeyboardInterrupt \<Rightarrow>
          (let s2 = worker_finally i s
           in set_worker i ((workers s2 ! i)\<lparr>w_pc := Raised KeyboardInterrupt\<rparr>) s2))"

text \<open>
  The statements before \<open>try\<close>: the sockets are created, connected and subscribed,
  the connection is logged and the counter is set. An exception raised by one of these
  calls (whatever call the fault names) leaves the function at once: nothing is logged
  and no socket is closed.
\<close>

definition worker_setup :: "fault \<Rightarrow> nat \<Rightarrow> thr_state \<Rightarrow> thr_state" where
  "worker_setup flt i s =
     (let w = workers s ! i in
      case flt of
        Some (j, c, e) \<Rightarrow> set_worker i (w\<lparr>w_pc := Raised e\<rparr>) s
      | None \<Rightarrow>
          set_worker i
            (w\<lparr>w_sub := sub_connect (w_topic w), w_push_closed := False,
               w_count := 0, w_pc := AtWhile\<rparr>)
            (s\<lparr>thr_logged :=
                 emit (LogWorkerConnected (w_name w) (w_topic w)) (thr_logged s)\<rparr>))"

text \<open>
  \<open>push.send_string(message)\<close>: the frame joins the worker's queue of the pipe
  while the collector's PULL socket is open; once it is closed the call waits.
\<close>

definition push_send :: "frame \<Rightarrow> collector \<Rightarrow> frame list \<Rightarrow> frame list option" where
  "push_send message c pipe = (if pull_closed c then None else Some (pipe @ [message]))"

definition worker_iteration :: "fault \<Rightarrow> nat \<Rightarrow> thr_state \<Rightarrow> thr_state" where
  "worker_iteration flt i s =
     (let w = workers s ! i in
      case raised_in flt Poll of
        Some e \<Rightarrow> worker_except e i s
      | None \<Rightarrow>
          (case zmq_poll (Some 1000) (inbox (w_sub w) \<noteq> []) of
             None \<Rightarrow> set_worker i (w\<lparr>w_pc := Blocked\<rparr>) s
           | Some False \<Rightarrow> set_worker i (w\<lparr>w_pc := AtWhile\<rparr>) s
           | Some True \<Rightarrow>
               (case raised_in flt Recv of
                  Some e \<Rightarrow> worker_except e i s
                | None \<Rightarrow>
                    (case recv_string (w_sub w) of
                       None \<Rightarrow> set_worker i (w\<lparr>w_pc := Blocked\<rparr>) s
                     | Some (message, sub') \<Rightarrow>
                         (let s1 = set_worker i (w\<lparr>w_sub := sub'\<rparr>) s in
                          case raised_in flt Send of
                            Some e \<Rightarrow> worker_except e i s1
                          | None \<Rightarrow>
                              (case push_send message (coll s) (w_pipe w) of
                                 None \<Rightarrow> set_worker i (w\<lparr>w_sub := sub', w_pc := Blocked\<rparr>) s
                               | Some pipe' \<Rightarrow>
                                   set_worker i
                                     (w\<lparr>w_sub := sub',
                                        w_pipe := pipe',
                                        w_count := w_count w + 1,
                                        w_pc := AtWhile\<rparr>)
                                     (s\<lparr>thr_logged :=
                                          emit (LogWorkerForwarded (w_name w) (w_count w + 1))
                                            (thr_logged s)\<rparr>)))))))"

text \<open>
  One action of worker \<open>i\<close>: the set-up of its sockets, the test of
  \<open>while _running\<close>, or one pass of the body. A worker that waits in a call inside
  the \<open>try\<close> statement goes on only when the call raises. A worker whose function
  has returned or raised does nothing.
\<close>

definition worker_step :: "fault \<Rightarrow> nat \<Rightarrow> thr_state \<Rightarrow> thr_state" where
  "worker_step flt i s =
     (case w_pc (workers s ! i) of
        AtSetup \<Rightarrow> worker_setup flt i s
      | AtWhile \<Rightarrow>
          (if thr_running s then set_worker i ((workers s ! i)\<lparr>w_pc := AtPoll\<rparr>) s
           else (let s2 = worker_finally i s
                 in set_worker i ((workers s2 ! i)\<lparr>w_pc := Returned\<rparr>) s2))
      | AtPoll \<Rightarrow> worker_iteration flt i s
      | Blocked \<Rightarrow> (case flt of Some (j, c, e) \<Rightarrow> worker_except e i s | None \<Rightarrow> s)
      | _ \<Rightarrow> s)"

subsection \<open>\<open>_collector_worker\<close>\<close>

text \<open>
  \<open>pull.recv_string()\<close>: the head of a worker's queue that is not empty, the first
  one in the round that starts at \<open>k\<close>; the environment chooses \<open>k\<close>. With every
  queue empty the call waits forever.
\<close>

definition pull_recv :: "nat \<Rightarrow> worker list \<Rightarrow> (frame \<times> worker list) option" where
  "pull_recv k ws =
     (case find (\<lambda>i. w_pipe (ws ! i) \<noteq> []) (rotate k [0..<length ws]) of
        None \<Rightarrow> None
      | Some i \<Rightarrow>
          Some (hd (w_pipe (ws ! i)), ws[i := (ws ! i)\<lparr>w_pipe := tl (w_pipe (ws ! i))\<rparr>]))"

definition collector_finally :: "thr_state \<Rightarrow> thr_state" where
  "collector_finally s =
     s\<lparr>thr_logged := emit (LogCollectorShutdown (c_event_count (coll s))) (thr_logged s),
       coll := (coll s)\<lparr>pull_closed := True, pub_closed := True\<rparr>\<rparr>"

definition collector_except :: "exn \<Rightarrow> thr_state \<Rightarrow> thr_state" where
  "collector_except e s =
     (case e of
        ZMQError \<Rightarrow>
          (let s1 = (if thr_running s
                     then s\<lparr>thr_logged := emit LogCollectorError (thr_logged s)\<rparr>
                     else s);
               s2 = collector_finally s1
           in s2\<lparr>coll := (coll s2)\<lparr>c_pc := Returned\<rparr>\<rparr>)
      | KeyboardInterrupt \<Rightarrow>
          (let s2 = collector_finally s
           in s2\<lparr>coll := (coll s2)\<lparr>c_pc := Raised KeyboardInterrupt\<rparr>\<rparr>))"

definition collector_iteration :: "nat \<Rightarrow> fault \<Rightarrow> thr_state \<Rightarrow> thr_state" where
  "collector_iteration k flt s =
     (case raised_in flt Poll of
        Some e \<Rightarrow> collector_except e s
      | None \<Rightarrow>
          (case zmq_poll (Some 1000) (\<exists>w \<in> set (workers s). w_pipe w \<noteq> []) of
             None \<Rightarrow> s\<lparr>coll := (coll s)\<lparr>c_pc := Blocked\<rparr>\<rparr>
           | Some False \<Rightarrow> s\<lparr>coll := (coll s)\<lparr>c_pc := AtWhile\<rparr>\<rparr>
           | Some True \<Rightarrow>
               (case raised_in flt Recv of
                  Some e \<Rightarrow> collector_except e s
                | None \<Rightarrow>
                    (case pull_recv k (workers s) of
                       None \<Rightarrow> s\<lparr>coll := (coll s)\<lparr>c_pc := Blocked\<rparr>\<rparr>
                     | Some (message, ws') \<Rightarrow>
                         (let s1 = s\<lparr>workers := ws'\<rparr> in
                          case raised_in flt Send of
                            Some e \<Rightarrow> collector_except e s1
                          | None \<Rightarrow>
                              s1\<lparr>coll := (coll s1)
                                    \<lparr>pub_sent := pub_sent (coll s1) @ [message],
                                     c_event_count := c_event_count (coll s1) + 1,
                                     c_pc := AtWhile\<rparr>,
                                 thr_logged :=
                                   emit (LogForward (c_event_count (coll s1) + 1)
                                           (topic_of message) (length message))
                                     (thr_logged s1)\<rparr>)))))"

definition collector_step :: "nat \<Rightarrow> fault \<Rightarrow> thr_state \<Rightarrow> thr_state" where
  "collector_step k flt s =
     (case c_pc (coll s) of
        AtWhile \<Rightarrow>
          (if thr_running s then s\<lparr>coll := (coll s)\<lparr>c_pc := AtPoll\<rparr>\<rparr>
           else (let s2 = collector_finally s in s2\<lparr>coll := (coll s2)\<lparr>c_pc := Returned\<rparr>\<rparr>))
      | AtPoll \<Rightarrow> collector_iteration k flt s
      | _ \<Rightarrow> s)"

subsection \<open>The threads together\<close>

text \<open>
  The threads run interleaved in any order: an event is a frame published by the
  producer behind worker \<open>i\<close>, a termination signal (handled in the main thread), one
  action of worker \<open>i\<close>, or one action of the collector (with its choice of queue).
  A frame published before the worker has set up its SUB socket reaches no socket.
\<close>

datatype thr_event =
    TArrive nat frame
  | TSignal
  | WorkerStep nat fault
  | CollectorStep nat fault

fun thr_apply :: "thr_state \<Rightarrow> thr_event \<Rightarrow> thr_state" where
  "thr_apply s (TArrive i f) =
     (if i < length (workers s) \<and> w_pc (workers s ! i) \<noteq> AtSetup
      then set_worker i ((workers s ! i)\<lparr>w_sub := sub_deliver f (w_sub (workers s ! i))\<rparr>) s
      else s)"
| "thr_apply s TSignal = thr_signal_handler s"
| "thr_apply s (WorkerStep i flt) = (if i < length (workers s) then worker_step flt i s else s)"
| "thr_apply s (CollectorStep k flt) = collector_step k flt s"

definition thr_run :: "thr_event list \<Rightarrow> thr_state \<Rightarrow> thr_state" where
  "thr_run evs s = foldl thr_apply s evs"

definition thr_offered :: "nat \<Rightarrow> string \<Rightarrow> thr_event list \<Rightarrow> frame list" where
  "thr_offered i topic evs =
     concat (map (\<lambda>ev. case ev of TArrive j f \<Rightarrow> (if j = i \<and> prefix topic f then [f] else [])
                              | _ \<Rightarrow> []) evs)"

section \<open>Invariants of the relays\<close>

text \<open>
  Topics are told apart by prefix: no topic of a relay is a prefix of another, so a
  frame carries at most one of them. For each subscription, the frames offered on its
  topic are accounted for: those already published, those in the pipe, and those still
  waiting in the socket, in this order.
\<close>

definition topics_apart :: "string list \<Rightarrow> bool" where
  "topics_apart ts =
     (\<forall>i<length ts. \<forall>j<length ts. i \<noteq> j \<longrightarrow> \<not> prefix (ts ! i) (ts ! j))"

definition std_topics :: "string list" where
  "std_topics = map snd std_sensor_ports"

definition std_conserved :: "(nat \<Rightarrow> frame list) \<Rightarrow> std_state \<Rightarrow> bool" where
  "std_conserved off s =
     (\<forall>i<length (subscribers s).
        off i = filter (prefix (std_topics ! i)) (publisher_sent s) @ inbox (subscribers s ! i)
        \<and> (\<forall>f\<in>set (inbox (subscribers s ! i)). prefix (std_topics ! i) f)
        \<and> \<not> sub_closed (subscribers s ! i))"

definition std_ordered :: "(nat \<Rightarrow> frame list) \<Rightarrow> std_state \<Rightarrow> bool" where
  "std_ordered off s =
     (map topic_filter (subscribers s) = std_topics
      \<and> (\<forall>f\<in>set (publisher_sent s). \<exists>i<length std_topics. prefix (std_topics ! i) f)
      \<and> (\<forall>i<length (subscribers s).
            prefix (filter (prefix (std_topics ! i)) (publisher_sent s)) (off i)))"

definition std_live :: "std_state \<Rightarrow> bool" where
  "std_live s = (std_pc s = AtWhile \<or> std_pc s = AtPoll)"

definition std_inv :: "(nat \<Rightarrow> frame list) \<Rightarrow> std_state \<Rightarrow> bool" where
  "std_inv off s = (std_ordered off s \<and> std_pc s \<noteq> Blocked \<and> (std_live s \<longrightarrow> std_conserved off s))"

definition thr_topics :: "string list" where
  "thr_topics = map (\<lambda>(port, topic, name). topic) thr_sensor_ports"

definition w_live :: "worker \<Rightarrow> bool" where
  "w_live w = (w_pc w = AtWhile \<or> w_pc w = AtPoll)"

definition c_live :: "collector \<Rightarrow> bool" where
  "c_live c = (c_pc c = AtWhile \<or> c_pc c = AtPoll)"

definition thr_base :: "(nat \<Rightarrow> frame list) \<Rightarrow> thr_state \<Rightarrow> bool" where
  "thr_base off s =
     (map (\<lambda>w. topic_filter (w_sub w)) (workers s) = thr_topics
      \<and> (\<forall>f\<in>set (pub_sent (coll s)). \<exists>i<length thr_topics. prefix (thr_topics ! i) f)
      \<and> (\<forall>i<length (workers s).
            prefix (filter (prefix (thr_topics ! i)) (pub_sent (coll s))) (off i)
            \<and> w_pc (workers s ! i) \<noteq> AtSetup)
      \<and> c_pc (coll s) \<noteq> Blocked)"

definition w_piped :: "frame list \<Rightarrow> string \<Rightarrow> frame list \<Rightarrow> worker \<Rightarrow> bool" where
  "w_piped offered topic sent w =
     ((\<forall>f\<in>set (w_pipe w). prefix topic f)
      \<and> prefix (filter (prefix topic) sent @ w_pipe w) offered
      \<and> (w_live w \<longrightarrow>
            offered = filter (prefix topic) sent @ w_pipe w @ inbox (w_sub w)
            \<and> (\<forall>f\<in>set (inbox (w_sub w)). prefix topic f)
            \<and> \<not> sub_closed (w_sub w)))"

definition thr_inv :: "(nat \<Rightarrow> frame list) \<Rightarrow> thr_state \<Rightarrow> bool" where
  "thr_inv off s =
     (thr_base off s
      \<and> (c_live (coll s) \<longrightarrow>
           (\<forall>i<length (workers s).
              w_piped (off i) (thr_topics ! i) (pub_sent (coll s)) (workers s ! i))))"

section \<open>Leaving the loops\<close>

text \<open>
  A thread is out of its loop when its function has returned or raised. The actions a
  thread takes in a list of events are counted per thread. Between the loop test and
  the end of the function a thread that does not wait forever has at most two actions
  left once the flag is cleared: the pass of the body in progress, and the test that
  follows it. A worker that has not set up its sockets yet has the set-up before them. A
  thread that waits forever in a call takes no further action of its own.
\<close>

fun exited :: "pc \<Rightarrow> bool" where
  "exited Returned = True"
| "exited (Raised e) = True"
| "exited AtSetup = False"
| "exited AtWhile = False"
| "exited AtPoll = False"
| "exited Blocked = False"

fun actions_left :: "pc \<Rightarrow> nat" where
  "actions_left AtSetup = 3"
| "actions_left AtPoll = 2"
| "actions_left AtWhile = 1"
| "actions_left Blocked = 0"
| "actions_left Returned = 0"
| "actions_left (Raised e) = 0"

text \<open>
  A worker waits forever only in \<open>push.send_string\<close>, and only once the collector
  has closed its PULL socket.
\<close>

definition blocked_only_when_pull_closed :: "thr_state \<Rightarrow> bool" where
  "blocked_only_when_pull_closed s =
     (\<forall>i<length (workers s). w_pc (workers s ! i) = Blocked \<longrightarrow> pull_closed (coll s))"

fun std_is_step :: "std_event \<Rightarrow> bool" where
  "std_is_step (Step flt) = True"
| "std_is_step (Arrive i f) = False"
| "std_is_step Signal = False"

definition std_steps :: "std_event list \<Rightarrow> nat" where
  "std_steps evs = length (filter std_is_step evs)"

fun is_worker_step :: "nat \<Rightarrow> thr_event \<Rightarrow> bool" where
  "is_worker_step i (WorkerStep j flt) = (j = i)"
| "is_worker_step i (TArrive j f) = False"
| "is_worker_step i TSignal = False"
| "is_worker_step i (CollectorStep k flt) = False"

definition worker_steps :: "nat \<Rightarrow> thr_event list \<Rightarrow> nat" where
  "worker_steps i evs = length (filter (is_worker_step i) evs)"

fun is_collector_step :: "thr_event \<Rightarrow> bool" where
  "is_collector_step (CollectorStep k flt) = True"
| "is_collector_step (WorkerStep j flt) = False"
| "is_collector_step (TArrive j f) = False"
| "is_collector_step TSignal = False"

definition collector_steps :: "thr_event list \<Rightarrow> nat" where
  "collector_steps evs = length (filter is_collector_step evs)"

text \<open>
  A call named \<open>c\<close> raises in worker \<open>w\<close> inside its \<open>try\<close>
  statement: the poll of the pass it is about to make, the receive or the send of that
  pass when a frame is waiting (the pass reaches them), or the send in which it waits.
\<close>

definition raises_in_try :: "call \<Rightarrow> worker \<Rightarrow> bool" where
  "raises_in_try c w =
     (case w_pc w of
        AtPoll \<Rightarrow> c = Poll \<or> inbox (w_sub w) \<noteq> []
      | Blocked \<Rightarrow> True
      | _ \<Rightarrow> False)"

text \<open>
  An event in which no call of worker \<open>i\<close> raises: any event of the producers,
  the signal, the other threads, and an action of worker \<open>i\<close> itself without
  an exception.
\<close>

fun quiet_for :: "nat \<Rightarrow> thr_event \<Rightarrow> bool" where
  "quiet_for i (WorkerStep j flt) = (if j = i then flt = None else True)"
| "quiet_for i (TArrive j f) = True"
| "quiet_for i TSignal = True"
| "quiet_for i (CollectorStep k flt) = True"

section \<open>Properties of the congestion level\<close>

text \<open>
  C9. \<open>get_congestion_level\<close> is total and returns exactly one of the three labels
  ALTA, NORMAL, BAJA (which are pairwise different); a speed below 10 gives ALTA, a
  speed from 10 to 40 inclusive gives NORMAL (so 10 is not ALTA and 40 is not BAJA), and
  a speed above 40 gives BAJA.
\<close>

theorem get_congestion_level_ranges:
  "get_congestion_level v \<in> {CONGESTION_ALTA, CONGESTION_NORMAL, CONGESTION_BAJA}
   \<and> CONGESTION_ALTA \<noteq> CONGESTION_NORMAL
   \<and> CONGESTION_ALTA \<noteq> CONGESTION_BAJA
   \<and> CONGESTION_NORMAL \<noteq> CONGESTION_BAJA
   \<and> (v < 10 \<longrightarrow> get_congestion_level v = CONGESTION_ALTA)
   \<and> (10 \<le> v \<and> v \<le> 40 \<longrightarrow> get_congestion_level v = CONGESTION_NORMAL)
   \<and> (40 < v \<longrightarrow> get_congestion_level v = CONGESTION_BAJA)"
  by (simp add: get_congestion_level_def CONGESTION_ALTA_MAX_SPEED_def
      CONGESTION_BAJA_MIN_SPEED_def CONGESTION_ALTA_def CONGESTION_NORMAL_def
      CONGESTION_BAJA_def)

theorem get_congestion_level_ranges_witness:
  "(9.5::real) < 10 \<and> get_congestion_level 9.5 = CONGESTION_ALTA
   \<and> (10::real) \<le> 10 \<and> get_congestion_level 10 = CONGESTION_NORMAL
   \<and> (40::real) \<le> 40 \<and> get_congestion_level 40 = CONGESTION_NORMAL
   \<and> (40::real) < 40.5 \<and> get_congestion_level 40.5 = CONGESTION_BAJA"
  using get_congestion_level_ranges [of "9.5"] get_congestion_level_ranges [of 10]
    get_congestion_level_ranges [of 40] get_congestion_level_ranges [of "40.5"]
  by simp

section \<open>Properties of GPSEvent and of the configuration singleton\<close>

text \<open>
  C8. Whenever a GPSEvent is constructed, by the constructor or by \<open>from_dict\<close>, its
  field \<open>nivel_congestion\<close> is \<open>get_congestion_level\<close> of its field
  \<open>velocidad_promedio\<close>, whatever \<open>nivel_congestion\<close> the caller or the dictionary
  supplied; and the constructor succeeds whenever the speed is a number.
\<close>

theorem GPSEvent_nivel_congestion_overwritten:
  "(GPSEvent_init now sid ts isec nc vp tstamp = Inr ev \<longrightarrow>
      velocidad_promedio ev = or_default vp (PNum 0)
      \<and> (\<exists>v. num_of (velocidad_promedio ev) = Some v
           \<and> nivel_congestion ev = PStr (get_congestion_level v)))
   \<and> (GPSEvent_from_dict now data = Inr ev' \<longrightarrow>
      velocidad_promedio ev' = or_default (data ''velocidad_promedio'') (PNum 0)
      \<and> (\<exists>w. num_of (velocidad_promedio ev') = Some w
           \<and> nivel_congestion ev' = PStr (get_congestion_level w)))
   \<and> (num_of (or_default vp (PNum 0)) \<noteq> None \<longrightarrow>
        (\<exists>ev. GPSEvent_init now sid ts isec nc vp tstamp = Inr ev))"
  by (auto simp: GPSEvent_init_def GPSEvent_from_dict_def GPSEvent_post_init_def
      get_congestion_level_dyn_def split: option.splits sum.splits)

theorem GPSEvent_nivel_congestion_overwritten_witness:
  "GPSEvent_init ''t0'' (PStr ''GPS-1'') None None (Some (PStr CONGESTION_BAJA))
       (Some (PNum 5)) None
     = Inr \<lparr>sensor_id = PStr ''GPS-1'', tipo_sensor = PStr SENSOR_TYPE_GPS,
            interseccion = PStr [], nivel_congestion = PStr CONGESTION_ALTA,
            velocidad_promedio = PNum 5, timestamp = PStr ''t0''\<rparr>
   \<and> GPSEvent_from_dict ''t0''
       [''sensor_id'' \<mapsto> PStr ''GPS-1'', ''nivel_congestion'' \<mapsto> PStr CONGESTION_BAJA,
        ''velocidad_promedio'' \<mapsto> PNum 5]
     = Inr \<lparr>sensor_id = PStr ''GPS-1'', tipo_sensor = PStr SENSOR_TYPE_GPS,
            interseccion = PStr [], nivel_congestion = PStr CONGESTION_ALTA,
            velocidad_promedio = PNum 5, timestamp = PStr ''t0''\<rparr>
   \<and> num_of (or_default (Some (PNum 5)) (PNum 0)) \<noteq> None
   \<and> (\<exists>v. num_of (PNum 5) = Some v \<and> PStr CONGESTION_ALTA = PStr (get_congestion_level v))"
proof -
  let ?ev = "\<lparr>sensor_id = PStr ''GPS-1'', tipo_sensor = PStr SENSOR_TYPE_GPS,
            interseccion = PStr [], nivel_congestion = PStr CONGESTION_ALTA,
            velocidad_promedio = PNum 5, timestamp = PStr ''t0''\<rparr>"
  let ?d = "[''sensor_id'' \<mapsto> PStr ''GPS-1'', ''nivel_congestion'' \<mapsto> PStr CONGESTION_BAJA,
        ''velocidad_promedio'' \<mapsto> PNum 5]"
  have lvl: "get_congestion_level 5 = CONGESTION_ALTA"
    by (simp add: get_congestion_level_def CONGESTION_ALTA_MAX_SPEED_def)
  have a: "GPSEvent_init ''t0'' (PStr ''GPS-1'') None None (Some (PStr CONGESTION_BAJA))
       (Some (PNum 5)) None = Inr ?ev"
    by (simp add: GPSEvent_init_def GPSEvent_post_init_def get_congestion_level_dyn_def
        or_default_def lvl)
  have b: "GPSEvent_from_dict ''t0'' ?d = Inr ?ev"
    by (simp add: GPSEvent_from_dict_def GPSEvent_init_def GPSEvent_post_init_def
        get_congestion_level_dyn_def or_default_def lvl)
  have c: "num_of (or_default (Some (PNum 5)) (PNum 0)) \<noteq> None"
    by (simp add: or_default_def)
  from GPSEvent_nivel_congestion_overwritten [of "''t0''" "PStr ''GPS-1''" None None
      "Some (PStr CONGESTION_BAJA)" "Some (PNum 5)" None ?ev ?d ?ev] a b c
  show ?thesis by simp
qed

text \<open>
  C10. \<open>get_config\<close> caches: when the first call (on the fresh module) succeeds, it
  returns a new instance holding what was loaded from its path, and every later call,
  whatever its path and whatever the files hold by then, returns the same instance and
  changes nothing.
\<close>

theorem get_config_cached:
  assumes "get_config fs1 path1 loader_init = (Inr r, st1)"
  shows "\<exists>c. fs1 path1 = Inr c \<and> r < length (heap st1) \<and> heap st1 ! r = \<lparr>config = c\<rparr>
           \<and> get_config fs2 path2 st1 = (Inr r, st1)
           \<and> get_config fs3 path3 (snd (get_config fs2 path2 st1)) = (Inr r, st1)"
  using assms
  by (auto simp: get_config_def CityConfig_init_def loader_init_def
      split: option.splits sum.splits)

theorem get_config_cached_witness:
  "get_config (\<lambda>p. if p = ''a.json'' then Inr (1::nat) else Inr 2) ''a.json'' loader_init
     = (Inr 0, \<lparr>heap = [\<lparr>config = 1\<rparr>], config_instance = Some 0\<rparr>)
   \<and> get_config (\<lambda>p. if p = ''a.json'' then Inr (1::nat) else Inr 2) ''b.json''
       \<lparr>heap = [\<lparr>config = 1\<rparr>], config_instance = Some 0\<rparr>
     = (Inr 0, \<lparr>heap = [\<lparr>config = 1::nat\<rparr>], config_instance = Some 0\<rparr>)"
proof -
  let ?fs = "\<lambda>p. if p = ''a.json'' then Inr (1::nat) else (Inr 2 :: io_error + nat)"
  have h: "get_config ?fs ''a.json'' loader_init
     = (Inr 0, \<lparr>heap = [\<lparr>config = 1\<rparr>], config_instance = Some 0\<rparr>)"
    by (simp add: get_config_def CityConfig_init_def loader_init_def)
  from get_config_cached [OF h, of ?fs "''b.json''"]
  show ?thesis using h by simp
qed

section \<open>The frames of one topic keep their order\<close>

lemma std_topics_apart: "topics_apart std_topics"
  unfolding topics_apart_def std_topics_def std_sensor_ports_def
  by (simp add: less_Suc_eq numeral_3_eq_3 all_conj_distrib)

lemma std_topics_length: "length std_topics = 3"
  by (simp add: std_topics_def std_sensor_ports_def)

lemma apart_no_common:
  assumes "topics_apart ts" "i < length ts" "j < length ts" "i \<noteq> j" "prefix (ts ! i) f"
  shows "\<not> prefix (ts ! j) f"
  using assms unfolding topics_apart_def
  by (metis prefix_same_cases)

lemma std_forward_result:
  assumes "inbox (subscribers s ! i) = m # rest"
  shows "std_forward flt i s =
     (case raised_at flt i Recv of
        Some e \<Rightarrow> (Raise e, s)
      | None \<Rightarrow>
          (case raised_at flt i Send of
             Some e \<Rightarrow> (Raise e, s\<lparr>subscribers := (subscribers s)[i := (subscribers s ! i)\<lparr>inbox := rest\<rparr>]\<rparr>)
           | None \<Rightarrow>
              (Normal, s\<lparr>subscribers := (subscribers s)[i := (subscribers s ! i)\<lparr>inbox := rest\<rparr>],
                  publisher_sent := publisher_sent s @ [m],
                  event_count := event_count s + 1,
                  logged := logged s @ [LogForward (event_count s + 1) (topic_of m) (length m)]\<rparr>)))"
  using assms by (simp add: std_forward_def recv_string_def Let_def split: option.splits)

lemma filter_snoc_topic:
  "filter P (xs @ [m]) = (if P m then filter P xs @ [m] else filter P xs)"
  by simp

lemma std_forward_conserved:
  assumes c: "std_conserved off s" and o: "std_ordered off s"
    and i: "i < length (subscribers s)" and ne: "inbox (subscribers s ! i) \<noteq> []"
    and f: "std_forward flt i s = (out, s')"
  shows "out \<noteq> Block \<and> std_ordered off s' \<and> (out = Normal \<longrightarrow> std_conserved off s')
         \<and> length (subscribers s') = length (subscribers s)
         \<and> std_pc s' = std_pc s \<and> running s' = running s
         \<and> (\<forall>j. j \<noteq> i \<longrightarrow> subscribers s' ! j = subscribers s ! j)"
proof -
  obtain m rest where mr: "inbox (subscribers s ! i) = m # rest"
    using ne by (cases "inbox (subscribers s ! i)") auto
  have len: "length std_topics = length (subscribers s)"
    using o by (auto simp: std_ordered_def dest: arg_cong [where f=length])
  have ti: "topic_filter (subscribers s ! i) = std_topics ! i"
    using o i by (auto simp: std_ordered_def dest: arg_cong [where f="\<lambda>xs. xs ! i"])
  have pm: "prefix (std_topics ! i) m"
    using c i mr by (auto simp: std_conserved_def)
  have others: "\<not> prefix (std_topics ! j) m" if "j < length (subscribers s)" "j \<noteq> i" for j
    using apart_no_common [OF std_topics_apart _ _ _ pm, of j] that i len by auto
  have tf: "map topic_filter ((subscribers s)[i := (subscribers s ! i)\<lparr>inbox := rest\<rparr>])
            = map topic_filter (subscribers s)"
    using i by (simp add: map_update list_update_same_conv)
  note r = std_forward_result [OF mr, of flt]
  show ?thesis
  proof (cases "raised_at flt i Recv")
    case (Some e)
    with r f have "out = Raise e" "s' = s" by auto
    with o show ?thesis by simp
  next
    case None
    note n1 = this
    show ?thesis
    proof (cases "raised_at flt i Send")
      case (Some e)
      with r f n1 have e: "out = Raise e"
        "s' = s\<lparr>subscribers := (subscribers s)[i := (subscribers s ! i)\<lparr>inbox := rest\<rparr>]\<rparr>"
        by auto
      have "std_ordered off s'"
        using o tf unfolding std_ordered_def e by simp
      then show ?thesis using e by (simp add: nth_list_update)
    next
      case None
      with r f n1 have e: "out = Normal"
        "s' = s\<lparr>subscribers := (subscribers s)[i := (subscribers s ! i)\<lparr>inbox := rest\<rparr>],
                  publisher_sent := publisher_sent s @ [m],
                  event_count := event_count s + 1,
                  logged := logged s @ [LogForward (event_count s + 1) (topic_of m) (length m)]\<rparr>"
        by auto
      have cons: "std_conserved off s'"
        unfolding std_conserved_def
      proof (intro allI impI)
        fix j assume "j < length (subscribers s')"
        then have j: "j < length (subscribers s)" by (simp add: e)
        show "off j = filter (prefix (std_topics ! j)) (publisher_sent s') @ inbox (subscribers s' ! j)
           \<and> (\<forall>f\<in>set (inbox (subscribers s' ! j)). prefix (std_topics ! j) f)
           \<and> \<not> sub_closed (subscribers s' ! j)"
        proof (cases "j = i")
          case True
          then show ?thesis using c i mr pm by (auto simp: std_conserved_def e)
        next
          case False
          then show ?thesis using c j others [OF j False] by (auto simp: std_conserved_def e)
        qed
      qed
      have ord: "std_ordered off s'"
        unfolding std_ordered_def
      proof (intro conjI ballI allI impI)
        show "map topic_filter (subscribers s') = std_topics"
          using o tf by (simp add: std_ordered_def e)
      next
        fix f assume "f \<in> set (publisher_sent s')"
        then show "\<exists>i<length std_topics. prefix (std_topics ! i) f"
          using o pm i len by (auto simp: std_ordered_def e)
      next
        fix j assume "j < length (subscribers s')"
        then have "off j = filter (prefix (std_topics ! j)) (publisher_sent s') @ inbox (subscribers s' ! j)"
          using cons by (simp add: std_conserved_def)
        then show "prefix (filter (prefix (std_topics ! j)) (publisher_sent s')) (off j)"
          by simp
      qed
      show ?thesis using cons ord e by (simp add: nth_list_update)
    qed
  qed
qed

lemma std_for_subs_conserved:
  assumes "std_conserved off s" "std_ordered off s" "distinct js"
    and "\<forall>j\<in>set js. j < length (subscribers s) \<and> (socks ! j \<longrightarrow> inbox (subscribers s ! j) \<noteq> [])"
    and "std_for_subs flt socks js s = (out, s')"
  shows "out \<noteq> Block \<and> std_ordered off s' \<and> (out = Normal \<longrightarrow> std_conserved off s')
         \<and> std_pc s' = std_pc s \<and> running s' = running s"
  using assms
proof (induction js arbitrary: s)
  case Nil
  then show ?case by simp
next
  case (Cons i rest)
  show ?case
  proof (cases "socks ! i")
    case False
    with Cons.prems have "std_for_subs flt socks rest s = (out, s')" by simp
    with Cons.IH [of s] Cons.prems show ?thesis by simp
  next
    case True
    obtain o1 s1 where f: "std_forward flt i s = (o1, s1)" by (cases "std_forward flt i s")
    from Cons.prems True have i: "i < length (subscribers s)" "inbox (subscribers s ! i) \<noteq> []"
      by auto
    note fc = std_forward_conserved [OF Cons.prems(1) Cons.prems(2) i f]
    show ?thesis
    proof (cases "o1 = Normal")
      case False
      with f True Cons.prems(5) have "out = o1" "s' = s1"
        by (auto split: outcome.splits)
      with fc False show ?thesis by simp
    next
      case n: True
      with f True Cons.prems(5) have r: "std_for_subs flt socks rest s1 = (out, s')" by simp
      have "\<forall>j\<in>set rest. j < length (subscribers s1) \<and> (socks ! j \<longrightarrow> inbox (subscribers s1 ! j) \<noteq> [])"
        using Cons.prems(3,4) fc by auto
      with Cons.IH [of s1] fc n r Cons.prems(3) show ?thesis by simp
    qed
  qed
qed

lemma std_finally_ordered: "std_ordered off s \<Longrightarrow> std_ordered off (std_finally s)"
  by (simp add: std_ordered_def std_finally_def sub_close_def comp_def)

lemma std_except_inv: "std_ordered off s \<Longrightarrow> std_inv off (std_except e s)"
  by (cases e) (auto simp: std_inv_def std_live_def std_except_def std_ordered_def
      std_finally_def sub_close_def comp_def)

lemma std_iteration_inv:
  assumes "std_conserved off s" "std_ordered off s"
  shows "std_inv off (std_iteration flt s)"
proof (cases "raised_in flt Poll")
  case (Some e)
  then show ?thesis using assms by (simp add: std_iteration_def std_except_inv)
next
  case None
  let ?socks = "map (\<lambda>sub. inbox sub \<noteq> []) (subscribers s)"
  have pp: "poller_poll (Some 1000) (subscribers s) = Some ?socks"
    by (simp add: poller_poll_def zmq_poll_def Let_def)
  obtain out s' where l: "std_for_subs flt ?socks [0..<length (subscribers s)] s = (out, s')"
    by (cases "std_for_subs flt ?socks [0..<length (subscribers s)] s")
  have "\<forall>j\<in>set [0..<length (subscribers s)]. j < length (subscribers s)
          \<and> (?socks ! j \<longrightarrow> inbox (subscribers s ! j) \<noteq> [])"
    by simp
  from std_for_subs_conserved [OF assms _ this l]
  have r: "out \<noteq> Block" "std_ordered off s'" "out = Normal \<longrightarrow> std_conserved off s'"
    by simp_all
  show ?thesis
  proof (cases out)
    case Normal
    with r have "std_inv off (s'\<lparr>std_pc := AtWhile\<rparr>)"
      by (simp add: std_inv_def std_ordered_def std_conserved_def std_live_def)
    with None pp l Normal show ?thesis by (simp add: std_iteration_def)
  next
    case (Raise e)
    with None pp l r show ?thesis by (simp add: std_iteration_def std_except_inv)
  next
    case Block
    with r show ?thesis by simp
  qed
qed

lemma std_step_inv:
  assumes "std_inv off s"
  shows "std_inv off (std_step flt s)"
proof (cases "std_pc s")
  case AtWhile
  with assms show ?thesis
    by (auto simp: std_step_def std_inv_def std_live_def std_ordered_def std_conserved_def
        std_finally_def sub_close_def comp_def)
next
  case AtPoll
  with assms have "std_conserved off s" "std_ordered off s"
    by (auto simp: std_inv_def std_live_def)
  then show ?thesis using AtPoll by (simp add: std_step_def std_iteration_inv)
qed (use assms in \<open>simp_all add: std_step_def\<close>)

lemma std_signal_inv: "std_inv off s \<Longrightarrow> std_inv off (std_signal_handler s)"
  by (simp add: std_inv_def std_signal_handler_def std_ordered_def std_conserved_def std_live_def)

lemma std_arrive_inv:
  assumes "std_inv off s"
  shows "std_inv (\<lambda>j. off j @ (if j = i \<and> prefix (std_topics ! i) f then [f] else []))
           (std_apply s (Arrive i f))"
proof (cases "i < length (subscribers s)")
  case False
  then show ?thesis using assms
    by (auto simp: std_inv_def std_ordered_def std_conserved_def)
next
  case True
  let ?off = "\<lambda>j. off j @ (if j = i \<and> prefix (std_topics ! i) f then [f] else [])"
  let ?s = "std_apply s (Arrive i f)"
  have ti: "topic_filter (subscribers s ! i) = std_topics ! i"
    using assms True by (auto simp: std_inv_def std_ordered_def dest: arg_cong [where f="\<lambda>xs. xs ! i"])
  have tf: "map topic_filter (subscribers ?s) = map topic_filter (subscribers s)"
    using True by (simp add: map_update sub_deliver_def list_update_same_conv)
  have ord: "std_ordered ?off ?s"
    using assms True tf unfolding std_inv_def std_ordered_def by auto
  have "std_conserved ?off ?s" if "std_conserved off s"
    unfolding std_conserved_def
  proof (intro allI impI)
    fix j assume "j < length (subscribers ?s)"
    then have j: "j < length (subscribers s)" using True by simp
    show "?off j = filter (prefix (std_topics ! j)) (publisher_sent ?s) @ inbox (subscribers ?s ! j)
           \<and> (\<forall>f\<in>set (inbox (subscribers ?s ! j)). prefix (std_topics ! j) f)
           \<and> \<not> sub_closed (subscribers ?s ! j)"
      using that j True ti
      by (cases "j = i") (auto simp: std_conserved_def sub_deliver_def)
  qed
  then show ?thesis using assms ord True
    by (auto simp: std_inv_def std_live_def)
qed

lemma std_offered_snoc:
  "std_offered i t (evs @ [ev]) =
     std_offered i t evs @ (case ev of Arrive j f \<Rightarrow> (if j = i \<and> prefix t f then [f] else []) | _ \<Rightarrow> [])"
  by (simp add: std_offered_def)

lemma std_init_inv: "std_inv (\<lambda>i. []) std_init"
  by (auto simp: std_inv_def std_ordered_def std_conserved_def std_live_def std_init_def
      std_topics_def std_sensor_ports_def sub_connect_def less_Suc_eq numeral_3_eq_3)

lemma std_run_snoc: "std_run (evs @ [ev]) s = std_apply (std_run evs s) ev"
  by (simp add: std_run_def)

lemma std_run_inv: "std_inv (\<lambda>i. std_offered i (std_topics ! i) evs) (std_run evs std_init)"
proof (induction evs rule: rev_induct)
  case Nil
  then show ?case using std_init_inv by (simp add: std_run_def std_offered_def)
next
  case (snoc ev evs)
  show ?case
  proof (cases ev)
    case (Arrive j f)
    have "(\<lambda>i. std_offered i (std_topics ! i) (evs @ [ev]))
        = (\<lambda>i. std_offered i (std_topics ! i) evs @ (if i = j \<and> prefix (std_topics ! j) f then [f] else []))"
      by (auto simp: std_offered_snoc Arrive)
    then show ?thesis using std_arrive_inv [OF snoc.IH, of j f]
      by (simp add: std_run_snoc Arrive)
  next
    case Signal
    then show ?thesis using std_signal_inv [OF snoc.IH]
      by (simp add: std_run_snoc std_offered_snoc)
  next
    case (Step flt)
    then show ?thesis using std_step_inv [OF snoc.IH]
      by (simp add: std_run_snoc std_offered_snoc)
  qed
qed

lemma thr_topics_apart: "topics_apart thr_topics"
  unfolding topics_apart_def thr_topics_def thr_sensor_ports_def
  by (simp add: less_Suc_eq numeral_3_eq_3 all_conj_distrib)

lemma thr_inv_worker_update:
  assumes inv: "thr_inv off s" and i: "i < length (workers s)"
    and ws: "workers s' = (workers s)[i := w']" and co: "coll s' = coll s"
    and tf: "topic_filter (w_sub w') = topic_filter (w_sub (workers s ! i))"
    and nb: "w_pc w' \<noteq> AtSetup"
    and pi: "c_live (coll s) \<Longrightarrow> w_piped (off i) (thr_topics ! i) (pub_sent (coll s)) (workers s ! i)
               \<Longrightarrow> w_piped (off i) (thr_topics ! i) (pub_sent (coll s)) w'"
  shows "thr_inv off s'"
proof -
  have m: "map (\<lambda>w. topic_filter (w_sub w)) (workers s') = map (\<lambda>w. topic_filter (w_sub w)) (workers s)"
    using i tf by (simp add: ws map_update list_update_same_conv)
  have b: "thr_base off s'"
    unfolding thr_base_def
  proof (intro conjI)
    show "map (\<lambda>w. topic_filter (w_sub w)) (workers s') = thr_topics"
      using inv m by (simp add: thr_inv_def thr_base_def)
    show "\<forall>f\<in>set (pub_sent (coll s')). \<exists>i<length thr_topics. prefix (thr_topics ! i) f"
      using inv by (simp add: thr_inv_def thr_base_def co)
    show "\<forall>j<length (workers s').
            prefix (filter (prefix (thr_topics ! j)) (pub_sent (coll s'))) (off j)
            \<and> w_pc (workers s' ! j) \<noteq> AtSetup"
      using inv nb i by (auto simp: thr_inv_def thr_base_def co ws nth_list_update)
    show "c_pc (coll s') \<noteq> Blocked"
      using inv by (simp add: thr_inv_def thr_base_def co)
  qed
  have "w_piped (off j) (thr_topics ! j) (pub_sent (coll s')) (workers s' ! j)"
    if "c_live (coll s')" "j < length (workers s')" for j
    using that inv pi i unfolding thr_inv_def co ws
    by (cases "j = i") (auto simp: nth_list_update)
  with b show ?thesis unfolding thr_inv_def by blast
qed

lemma thr_inv_not_setup:
  assumes "thr_inv off s" "i < length (workers s)"
  shows "w_pc (workers s ! i) \<noteq> AtSetup"
  using assms by (simp add: thr_inv_def thr_base_def)

lemma worker_except_shape:
  assumes "i < length (workers s)"
  shows "workers (worker_except e i s) =
           (workers s)[i := (workers s ! i)\<lparr>w_sub := sub_close (w_sub (workers s ! i)),
              w_push_closed := True,
              w_pc := (case e of ZMQError \<Rightarrow> Returned | KeyboardInterrupt \<Rightarrow> Raised KeyboardInterrupt)\<rparr>]
         \<and> coll (worker_except e i s) = coll s
         \<and> thr_running (worker_except e i s) = thr_running s"
  using assms
  by (cases e) (simp_all add: worker_except_def worker_finally_def set_worker_def Let_def)

lemma worker_except_inv:
  assumes "thr_inv off s" "i < length (workers s)"
  shows "thr_inv off (worker_except e i s)"
proof (rule thr_inv_worker_update [OF assms])
  note sh = worker_except_shape [OF assms(2), of e]
  let ?w = "(workers s ! i)\<lparr>w_sub := sub_close (w_sub (workers s ! i)),
              w_push_closed := True,
              w_pc := (case e of ZMQError \<Rightarrow> Returned | KeyboardInterrupt \<Rightarrow> Raised KeyboardInterrupt)\<rparr>"
  show "workers (worker_except e i s) = (workers s)[i := ?w]" using sh by simp
  show "coll (worker_except e i s) = coll s" using sh by simp
  show "topic_filter (w_sub ?w) = topic_filter (w_sub (workers s ! i))"
    by (simp add: sub_close_def)
  show "w_pc ?w \<noteq> AtSetup" by (simp split: exn.splits)
  show "w_piped (off i) (thr_topics ! i) (pub_sent (coll s)) ?w"
    if "w_piped (off i) (thr_topics ! i) (pub_sent (coll s)) (workers s ! i)"
    using that by (auto simp: w_piped_def w_live_def split: exn.splits)
qed

lemma worker_iteration_result:
  "worker_iteration flt i s =
     (let w = workers s ! i in
      case raised_in flt Poll of
        Some e \<Rightarrow> worker_except e i s
      | None \<Rightarrow>
          (case inbox (w_sub w) of
             [] \<Rightarrow> set_worker i (w\<lparr>w_pc := AtWhile\<rparr>) s
           | m # rest \<Rightarrow>
               (case raised_in flt Recv of
                  Some e \<Rightarrow> worker_except e i s
                | None \<Rightarrow>
                    (case raised_in flt Send of
                       Some e \<Rightarrow>
                         worker_except e i (set_worker i (w\<lparr>w_sub := (w_sub w)\<lparr>inbox := rest\<rparr>\<rparr>) s)
                     | None \<Rightarrow>
                         (if pull_closed (coll s)
                          then set_worker i
                                 (w\<lparr>w_sub := (w_sub w)\<lparr>inbox := rest\<rparr>, w_pc := Blocked\<rparr>) s
                          else set_worker i
                                 (w\<lparr>w_sub := (w_sub w)\<lparr>inbox := rest\<rparr>,
                                    w_pipe := w_pipe w @ [m],
                                    w_count := w_count w + 1,
                                    w_pc := AtWhile\<rparr>)
                                 (s\<lparr>thr_logged :=
                                      emit (LogWorkerForwarded (w_name w) (w_count w + 1))
                                        (thr_logged s)\<rparr>))))))"
  by (simp add: worker_iteration_def zmq_poll_def recv_string_def push_send_def Let_def
      split: option.splits list.splits)

lemma worker_iteration_inv:
  assumes inv: "thr_inv off s" and i: "i < length (workers s)"
    and pc: "w_pc (workers s ! i) = AtPoll"
  shows "thr_inv off (worker_iteration flt i s)"
proof -
  let ?w = "workers s ! i"
  have live: "w_live ?w" using pc by (simp add: w_live_def)
  show ?thesis
  proof (cases "raised_in flt Poll")
    case (Some e)
    then show ?thesis using worker_except_inv [OF inv i]
      by (simp add: worker_iteration_result Let_def)
  next
    case np: None
    show ?thesis
    proof (cases "inbox (w_sub ?w)")
      case Nil
      have "thr_inv off (set_worker i (?w\<lparr>w_pc := AtWhile\<rparr>) s)"
        by (rule thr_inv_worker_update [OF inv i, where w'="?w\<lparr>w_pc := AtWhile\<rparr>"])
          (use live in \<open>auto simp: set_worker_def w_piped_def w_live_def\<close>)
      then show ?thesis using np Nil by (simp add: worker_iteration_result Let_def)
    next
      case (Cons m rest)
      show ?thesis
      proof (cases "raised_in flt Recv")
        case (Some e)
        then show ?thesis using worker_except_inv [OF inv i] np Cons
          by (simp add: worker_iteration_result Let_def)
      next
        case nr: None
        show ?thesis
        proof (cases "raised_in flt Send")
          case (Some e)
          let ?s1 = "set_worker i (?w\<lparr>w_sub := (w_sub ?w)\<lparr>inbox := rest\<rparr>\<rparr>) s"
          have "thr_inv off (worker_except e i ?s1)"
          proof (rule thr_inv_worker_update [OF inv i])
            have i1: "i < length (workers ?s1)" using i by (simp add: set_worker_def)
            note sh = worker_except_shape [OF i1, of e]
            let ?w' = "?w\<lparr>w_sub := sub_close ((w_sub ?w)\<lparr>inbox := rest\<rparr>),
              w_push_closed := True,
              w_pc := (case e of ZMQError \<Rightarrow> Returned | KeyboardInterrupt \<Rightarrow> Raised KeyboardInterrupt)\<rparr>"
            show "workers (worker_except e i ?s1) = (workers s)[i := ?w']"
              using sh i by (simp add: set_worker_def)
            show "coll (worker_except e i ?s1) = coll s"
              using sh by (simp add: set_worker_def)
            show "topic_filter (w_sub ?w') = topic_filter (w_sub ?w)"
              by (simp add: sub_close_def)
            show "w_pc ?w' \<noteq> AtSetup" by (simp split: exn.splits)
            show "w_piped (off i) (thr_topics ! i) (pub_sent (coll s)) ?w'"
              if "w_piped (off i) (thr_topics ! i) (pub_sent (coll s)) ?w"
              using that by (auto simp: w_piped_def w_live_def split: exn.splits)
          qed
          then show ?thesis using np nr Cons Some by (simp add: worker_iteration_result Let_def)
        next
          case ns: None
          show ?thesis
          proof (cases "pull_closed (coll s)")
            case True
            let ?w' = "?w\<lparr>w_sub := (w_sub ?w)\<lparr>inbox := rest\<rparr>, w_pc := Blocked\<rparr>"
            have "thr_inv off (set_worker i ?w' s)"
            proof (rule thr_inv_worker_update [OF inv i, where w'="?w'"])
              show "w_piped (off i) (thr_topics ! i) (pub_sent (coll s)) ?w'"
                if "w_piped (off i) (thr_topics ! i) (pub_sent (coll s)) ?w"
                using that by (auto simp: w_piped_def w_live_def)
            qed (simp_all add: set_worker_def)
            then show ?thesis using np nr ns Cons True
              by (simp add: worker_iteration_result Let_def)
          next
            case False
            let ?w' = "?w\<lparr>w_sub := (w_sub ?w)\<lparr>inbox := rest\<rparr>,
                              w_pipe := w_pipe ?w @ [m],
                              w_count := w_count ?w + 1,
                              w_pc := AtWhile\<rparr>"
            let ?s' = "set_worker i ?w'
                           (s\<lparr>thr_logged :=
                                emit (LogWorkerForwarded (w_name ?w) (w_count ?w + 1))
                                  (thr_logged s)\<rparr>)"
            have "thr_inv off ?s'"
            proof (rule thr_inv_worker_update [OF inv i, where w'="?w'"])
              show "w_piped (off i) (thr_topics ! i) (pub_sent (coll s)) ?w'"
                if "w_piped (off i) (thr_topics ! i) (pub_sent (coll s)) ?w"
                using that live Cons by (auto simp: w_piped_def w_live_def)
            qed (simp_all add: set_worker_def)
            then show ?thesis using np nr ns Cons False
              by (simp add: worker_iteration_result Let_def)
          qed
        qed
      qed
    qed
  qed
qed

lemma worker_step_inv:
  assumes inv: "thr_inv off s" and i: "i < length (workers s)"
  shows "thr_inv off (worker_step flt i s)"
proof (cases "w_pc (workers s ! i)")
  case AtSetup
  with thr_inv_not_setup [OF inv i] show ?thesis by simp
next
  case AtWhile
  let ?w = "workers s ! i"
  show ?thesis
  proof (cases "thr_running s")
    case True
    have "thr_inv off (set_worker i (?w\<lparr>w_pc := AtPoll\<rparr>) s)"
      by (rule thr_inv_worker_update [OF inv i, where w'="?w\<lparr>w_pc := AtPoll\<rparr>"])
        (use AtWhile in \<open>auto simp: set_worker_def w_piped_def w_live_def\<close>)
    then show ?thesis using AtWhile True by (simp add: worker_step_def)
  next
    case False
    let ?w' = "?w\<lparr>w_sub := sub_close (w_sub ?w), w_push_closed := True, w_pc := Returned\<rparr>"
    have "thr_inv off (worker_step flt i s)"
    proof (rule thr_inv_worker_update [OF inv i, where w'="?w'"])
      show "workers (worker_step flt i s) = (workers s)[i := ?w']"
        using AtWhile False i
        by (simp add: worker_step_def worker_finally_def set_worker_def Let_def)
      show "coll (worker_step flt i s) = coll s"
        using AtWhile False i
        by (simp add: worker_step_def worker_finally_def set_worker_def Let_def)
      show "w_piped (off i) (thr_topics ! i) (pub_sent (coll s)) ?w'"
        if "w_piped (off i) (thr_topics ! i) (pub_sent (coll s)) ?w"
        using that by (auto simp: w_piped_def w_live_def)
    qed (simp_all add: sub_close_def)
    then show ?thesis .
  qed
next
  case AtPoll
  then show ?thesis using worker_iteration_inv [OF inv i] by (simp add: worker_step_def)
next
  case Blocked
  then show ?thesis using inv worker_except_inv [OF inv i]
    by (cases flt) (auto simp: worker_step_def)
qed (use inv in \<open>simp_all add: worker_step_def\<close>)

lemma pull_recv_Some:
  assumes "pull_recv k ws = Some (m, ws')"
  shows "\<exists>i<length ws. \<exists>rest. w_pipe (ws ! i) = m # rest \<and> ws' = ws[i := (ws ! i)\<lparr>w_pipe := rest\<rparr>]"
proof -
  from assms obtain i where f: "find (\<lambda>i. w_pipe (ws ! i) \<noteq> []) (rotate k [0..<length ws]) = Some i"
    and r: "m = hd (w_pipe (ws ! i))" "ws' = ws[i := (ws ! i)\<lparr>w_pipe := tl (w_pipe (ws ! i))\<rparr>]"
    by (auto simp: pull_recv_def split: option.splits)
  from f obtain n where n: "n < length (rotate k [0..<length ws])"
      "w_pipe (ws ! i) \<noteq> []" "i = rotate k [0..<length ws] ! n"
    unfolding find_Some_iff by blast
  from n(1,3) have "i \<in> set (rotate k [0..<length ws])"
    using nth_mem by blast
  note this n(2)
  then have "i < length ws" "w_pipe (ws ! i) = m # tl (w_pipe (ws ! i))"
    using r by auto
  with r show ?thesis by blast
qed

lemma pull_recv_None:
  assumes "pull_recv k ws = None"
  shows "\<forall>w\<in>set ws. w_pipe w = []"
proof -
  from assms have "find (\<lambda>i. w_pipe (ws ! i) \<noteq> []) (rotate k [0..<length ws]) = None"
    by (auto simp: pull_recv_def split: option.splits)
  then have "\<forall>i<length ws. w_pipe (ws ! i) = []"
    by (auto simp: find_None_iff)
  then show ?thesis by (auto simp: in_set_conv_nth)
qed

lemma collector_except_shape:
  "workers (collector_except e s) = workers s
   \<and> thr_running (collector_except e s) = thr_running s
   \<and> coll (collector_except e s) =
       (coll s)\<lparr>pull_closed := True, pub_closed := True,
          c_pc := (case e of ZMQError \<Rightarrow> Returned | KeyboardInterrupt \<Rightarrow> Raised KeyboardInterrupt)\<rparr>"
  by (cases e) (simp_all add: collector_except_def collector_finally_def Let_def)

lemma thr_inv_collector_dead:
  assumes "thr_base off s"
    and "map (\<lambda>w. topic_filter (w_sub w)) (workers s') = map (\<lambda>w. topic_filter (w_sub w)) (workers s)"
    and "map w_pc (workers s') = map w_pc (workers s)"
    and "pub_sent (coll s') = pub_sent (coll s)"
    and "c_pc (coll s') \<noteq> Blocked" "\<not> c_live (coll s')"
  shows "thr_inv off s'"
proof -
  have len: "length (workers s') = length (workers s)"
    using assms(3) by (auto dest: arg_cong [where f=length])
  have "w_pc (workers s' ! i) = w_pc (workers s ! i)" if "i < length (workers s)" for i
    using assms(3) that len by (metis nth_map)
  then show ?thesis
    using assms len by (auto simp: thr_inv_def thr_base_def)
qed

lemma collector_except_inv:
  assumes "thr_base off s"
    and "map (\<lambda>w. topic_filter (w_sub w)) (workers s1) = map (\<lambda>w. topic_filter (w_sub w)) (workers s)"
    and "map w_pc (workers s1) = map w_pc (workers s)"
    and "pub_sent (coll s1) = pub_sent (coll s)"
  shows "thr_inv off (collector_except e s1)"
  by (rule thr_inv_collector_dead [OF assms(1)])
    (use assms collector_except_shape [of e s1] in \<open>auto simp: c_live_def split: exn.splits\<close>)

lemma collector_iteration_inv:
  assumes inv: "thr_inv off s" and pc: "c_pc (coll s) = AtPoll"
  shows "thr_inv off (collector_iteration k flt s)"
proof -
  have live: "c_live (coll s)" using pc by (simp add: c_live_def)
  have base: "thr_base off s" using inv by (simp add: thr_inv_def)
  have piped: "w_piped (off i) (thr_topics ! i) (pub_sent (coll s)) (workers s ! i)"
    if "i < length (workers s)" for i
    using inv live that by (simp add: thr_inv_def)
  have len: "length thr_topics = length (workers s)"
    using base by (auto simp: thr_base_def dest: arg_cong [where f=length])
  show ?thesis
  proof (cases "raised_in flt Poll")
    case (Some e)
    then show ?thesis using collector_except_inv [OF base, of s e]
      by (simp add: collector_iteration_def)
  next
    case np: None
    show ?thesis
    proof (cases "\<exists>w \<in> set (workers s). w_pipe w \<noteq> []")
      case False
      have "thr_inv off (s\<lparr>coll := (coll s)\<lparr>c_pc := AtWhile\<rparr>\<rparr>)"
        using inv live by (auto simp: thr_inv_def thr_base_def c_live_def)
      then show ?thesis using np False by (simp add: collector_iteration_def zmq_poll_def)
    next
      case True
      show ?thesis
      proof (cases "raised_in flt Recv")
        case (Some e)
        then show ?thesis using collector_except_inv [OF base, of s e] np True
          by (simp add: collector_iteration_def zmq_poll_def)
      next
        case nr: None
        from True pull_recv_None [of k "workers s"]
        obtain m ws' where pr: "pull_recv k (workers s) = Some (m, ws')"
          by (cases "pull_recv k (workers s)") auto
        from pull_recv_Some [OF pr] obtain i rest where i: "i < length (workers s)"
          and pi: "w_pipe (workers s ! i) = m # rest"
          and ws': "ws' = (workers s)[i := (workers s ! i)\<lparr>w_pipe := rest\<rparr>]"
          by blast
        have tf: "map (\<lambda>w. topic_filter (w_sub w)) ws' = map (\<lambda>w. topic_filter (w_sub w)) (workers s)"
          using i by (simp add: ws' map_update list_update_same_conv)
        have pcs: "map w_pc ws' = map w_pc (workers s)"
          using i by (simp add: ws' map_update list_update_same_conv)
        show ?thesis
        proof (cases "raised_in flt Send")
          case (Some e)
          have "thr_inv off (collector_except e (s\<lparr>workers := ws'\<rparr>))"
            by (rule collector_except_inv [OF base]) (simp_all add: tf pcs)
          then show ?thesis using np nr True pr Some
            by (simp add: collector_iteration_def zmq_poll_def)
        next
          case ns: None
          let ?s' = "s\<lparr>workers := ws',
                        coll := (coll s)\<lparr>pub_sent := pub_sent (coll s) @ [m],
                                     c_event_count := c_event_count (coll s) + 1,
                                     c_pc := AtWhile\<rparr>,
                        thr_logged := emit (LogForward (c_event_count (coll s) + 1)
                                           (topic_of m) (length m)) (thr_logged s)\<rparr>"
          have pm: "prefix (thr_topics ! i) m"
            using piped [OF i] pi by (simp add: w_piped_def)
          have others: "\<not> prefix (thr_topics ! j) m" if "j < length (workers s)" "j \<noteq> i" for j
            using apart_no_common [OF thr_topics_apart _ _ _ pm, of j] that i len by auto
          have b': "thr_base off ?s'"
            unfolding thr_base_def
          proof (intro conjI)
            show "map (\<lambda>w. topic_filter (w_sub w)) (workers ?s') = thr_topics"
              using base tf by (simp add: thr_base_def)
            show "\<forall>f\<in>set (pub_sent (coll ?s')). \<exists>i<length thr_topics. prefix (thr_topics ! i) f"
              using base pm i len by (auto simp: thr_base_def)
            show "c_pc (coll ?s') \<noteq> Blocked" by simp
            show "\<forall>j<length (workers ?s').
                    prefix (filter (prefix (thr_topics ! j)) (pub_sent (coll ?s'))) (off j)
                    \<and> w_pc (workers ?s' ! j) \<noteq> AtSetup"
            proof (intro allI impI)
              fix j assume "j < length (workers ?s')"
              then have j: "j < length (workers s)" by (simp add: ws')
              have nb: "w_pc (workers ?s' ! j) \<noteq> AtSetup"
                using base j by (cases "j = i") (auto simp: thr_base_def ws')
              have "prefix (filter (prefix (thr_topics ! j)) (pub_sent (coll s) @ [m])) (off j)"
              proof (cases "j = i")
                case True
                have "prefix (filter (prefix (thr_topics ! i)) (pub_sent (coll s)) @ m # rest) (off i)"
                  using piped [OF i] pi by (simp add: w_piped_def)
                then have "prefix (filter (prefix (thr_topics ! i)) (pub_sent (coll s)) @ [m]) (off i)"
                  by (metis append_Cons append_Nil append_assoc append_prefixD)
                then show ?thesis using True pm by simp
              next
                case False
                then show ?thesis using base j others [OF j False] by (simp add: thr_base_def)
              qed
              with nb show "prefix (filter (prefix (thr_topics ! j)) (pub_sent (coll ?s'))) (off j)
                    \<and> w_pc (workers ?s' ! j) \<noteq> AtSetup" by simp
            qed
          qed
          have "w_piped (off j) (thr_topics ! j) (pub_sent (coll ?s')) (workers ?s' ! j)"
            if "j < length (workers ?s')" for j
          proof -
            from that have j: "j < length (workers s)" by (simp add: ws')
            show ?thesis
            proof (cases "j = i")
              case True
              then show ?thesis using piped [OF i] pi pm i
                by (auto simp: w_piped_def w_live_def ws')
            next
              case False
              then show ?thesis using piped [OF j] others [OF j False] j
                by (auto simp: w_piped_def w_live_def ws')
            qed
          qed
          with b' have "thr_inv off ?s'" by (simp add: thr_inv_def)
          then show ?thesis using np nr ns True pr
            by (simp add: collector_iteration_def zmq_poll_def)
        qed
      qed
    qed
  qed
qed

lemma collector_step_inv:
  assumes inv: "thr_inv off s"
  shows "thr_inv off (collector_step k flt s)"
proof (cases "c_pc (coll s)")
  case AtWhile
  show ?thesis
  proof (cases "thr_running s")
    case True
    then show ?thesis using inv AtWhile
      by (auto simp: collector_step_def thr_inv_def thr_base_def c_live_def)
  next
    case False
    have "thr_inv off (collector_step k flt s)"
      by (rule thr_inv_collector_dead [where s=s])
        (use inv AtWhile False in \<open>auto simp: collector_step_def collector_finally_def Let_def
          thr_inv_def c_live_def\<close>)
    then show ?thesis .
  qed
next
  case AtPoll
  then show ?thesis using collector_iteration_inv [OF inv] by (simp add: collector_step_def)
qed (use inv in \<open>simp_all add: collector_step_def\<close>)

lemma thr_signal_inv: "thr_inv off s \<Longrightarrow> thr_inv off (thr_signal_handler s)"
  by (simp add: thr_inv_def thr_base_def thr_signal_handler_def)

lemma thr_arrive_inv:
  assumes inv: "thr_inv off s"
  shows "thr_inv (\<lambda>j. off j @ (if j = i \<and> prefix (thr_topics ! i) f then [f] else []))
           (thr_apply s (TArrive i f))"
proof (cases "i < length (workers s)")
  case False
  then show ?thesis using inv
    by (auto simp: thr_inv_def thr_base_def w_piped_def)
next
  case True
  let ?off = "\<lambda>j. off j @ (if j = i \<and> prefix (thr_topics ! i) f then [f] else [])"
  let ?w = "workers s ! i"
  let ?w' = "?w\<lparr>w_sub := sub_deliver f (w_sub ?w)\<rparr>"
  have ti: "topic_filter (w_sub ?w) = thr_topics ! i"
    using inv True
    by (auto simp: thr_inv_def thr_base_def dest: arg_cong [where f="\<lambda>xs. xs ! i"])
  have st: "thr_apply s (TArrive i f) = set_worker i ?w' s"
    using True thr_inv_not_setup [OF inv True] by simp
  have "thr_inv ?off (set_worker i ?w' s)"
  proof -
    have m: "map (\<lambda>w. topic_filter (w_sub w)) (workers (set_worker i ?w' s))
           = map (\<lambda>w. topic_filter (w_sub w)) (workers s)"
      using True by (simp add: set_worker_def map_update sub_deliver_def list_update_same_conv)
    have b: "thr_base ?off (set_worker i ?w' s)"
      using inv True m unfolding thr_inv_def thr_base_def
      by (auto simp: set_worker_def nth_list_update)
    have "w_piped (?off j) (thr_topics ! j) (pub_sent (coll s)) (workers (set_worker i ?w' s) ! j)"
      if "c_live (coll s)" "j < length (workers s)" for j
    proof -
      have p: "w_piped (off j) (thr_topics ! j) (pub_sent (coll s)) (workers s ! j)"
        using inv that by (simp add: thr_inv_def)
      show ?thesis
      proof (cases "j = i")
        case False
        then show ?thesis using p that by (simp add: set_worker_def)
      next
        case True
        then show ?thesis using p that ti
          by (auto simp: set_worker_def w_piped_def w_live_def sub_deliver_def)
      qed
    qed
    with b show ?thesis by (simp add: thr_inv_def set_worker_def)
  qed
  with st show ?thesis by simp
qed

lemma thr_offered_snoc:
  "thr_offered i t (evs @ [ev]) =
     thr_offered i t evs @ (case ev of TArrive j f \<Rightarrow> (if j = i \<and> prefix t f then [f] else []) | _ \<Rightarrow> [])"
  by (simp add: thr_offered_def)

lemma thr_init_inv: "thr_inv (\<lambda>i. []) thr_init"
  by (auto simp: thr_inv_def thr_base_def w_piped_def w_live_def thr_init_def worker_start_def
      thr_topics_def thr_sensor_ports_def sub_connect_def less_Suc_eq numeral_3_eq_3)

lemma thr_run_snoc: "thr_run (evs @ [ev]) s = thr_apply (thr_run evs s) ev"
  by (simp add: thr_run_def)

lemma thr_run_inv: "thr_inv (\<lambda>i. thr_offered i (thr_topics ! i) evs) (thr_run evs thr_init)"
proof (induction evs rule: rev_induct)
  case Nil
  then show ?case using thr_init_inv by (simp add: thr_run_def thr_offered_def)
next
  case (snoc ev evs)
  show ?case
  proof (cases ev)
    case (TArrive j f)
    have "(\<lambda>i. thr_offered i (thr_topics ! i) (evs @ [ev]))
        = (\<lambda>i. thr_offered i (thr_topics ! i) evs @ (if i = j \<and> prefix (thr_topics ! j) f then [f] else []))"
      by (auto simp: thr_offered_snoc TArrive)
    then show ?thesis using thr_arrive_inv [OF snoc.IH, of j f]
      by (simp add: thr_run_snoc TArrive)
  next
    case TSignal
    then show ?thesis using thr_signal_inv [OF snoc.IH]
      by (simp add: thr_run_snoc thr_offered_snoc)
  next
    case (WorkerStep i flt)
    then show ?thesis using worker_step_inv [OF snoc.IH, of i flt] snoc.IH
      by (simp add: thr_run_snoc thr_offered_snoc)
  next
    case (CollectorStep k flt)
    then show ?thesis using collector_step_inv [OF snoc.IH]
      by (simp add: thr_run_snoc thr_offered_snoc)
  qed
qed

section \<open>What is published downstream\<close>

lemma std_offered_mem: "f \<in> set (std_offered i t evs) \<Longrightarrow> Arrive i f \<in> set evs"
  by (auto simp: std_offered_def split: std_event.splits if_splits)

lemma thr_offered_mem: "f \<in> set (thr_offered i t evs) \<Longrightarrow> TArrive i f \<in> set evs"
  by (auto simp: thr_offered_def split: thr_event.splits if_splits)

lemma std_published_arrived:
  assumes "f \<in> set (publisher_sent (std_run evs std_init))"
  shows "\<exists>j. Arrive j f \<in> set evs"
proof -
  let ?s = "std_run evs std_init"
  have o: "std_ordered (\<lambda>i. std_offered i (std_topics ! i) evs) ?s"
    using std_run_inv [of evs] by (simp add: std_inv_def)
  have len: "length std_topics = length (subscribers ?s)"
    using o by (auto simp: std_ordered_def dest: arg_cong [where f=length])
  from o assms obtain i where i: "i < length std_topics" "prefix (std_topics ! i) f"
    by (auto simp: std_ordered_def)
  then have "f \<in> set (filter (prefix (std_topics ! i)) (publisher_sent ?s))"
    using assms by simp
  moreover have "prefix (filter (prefix (std_topics ! i)) (publisher_sent ?s))
                   (std_offered i (std_topics ! i) evs)"
    using o i len by (simp add: std_ordered_def)
  ultimately have "f \<in> set (std_offered i (std_topics ! i) evs)"
    using set_mono_prefix by blast
  then show ?thesis using std_offered_mem by blast
qed

lemma thr_published_arrived:
  assumes "f \<in> set (pub_sent (coll (thr_run evs thr_init)))"
  shows "\<exists>j. TArrive j f \<in> set evs"
proof -
  let ?s = "thr_run evs thr_init"
  have o: "thr_base (\<lambda>i. thr_offered i (thr_topics ! i) evs) ?s"
    using thr_run_inv [of evs] by (simp add: thr_inv_def)
  have len: "length thr_topics = length (workers ?s)"
    using o by (auto simp: thr_base_def dest: arg_cong [where f=length])
  from o assms obtain i where i: "i < length thr_topics" "prefix (thr_topics ! i) f"
    by (auto simp: thr_base_def)
  then have "f \<in> set (filter (prefix (thr_topics ! i)) (pub_sent (coll ?s)))"
    using assms by simp
  moreover have "prefix (filter (prefix (thr_topics ! i)) (pub_sent (coll ?s)))
                   (thr_offered i (thr_topics ! i) evs)"
    using o i len by (simp add: thr_base_def)
  ultimately have "f \<in> set (thr_offered i (thr_topics ! i) evs)"
    using set_mono_prefix by blast
  then show ?thesis using thr_offered_mem by blast
qed

lemma std_subscribers_length: "length (subscribers (std_run evs std_init)) = length std_sensor_ports"
  using std_run_inv [of evs]
  by (auto simp: std_inv_def std_ordered_def std_topics_def dest: arg_cong [where f=length])

lemma thr_workers_length: "length (workers (thr_run evs thr_init)) = length thr_sensor_ports"
  using thr_run_inv [of evs]
  by (auto simp: thr_inv_def thr_base_def thr_topics_def dest: arg_cong [where f=length])

text \<open>
  C2. For each subscription of either relay, the frames of its topic that have been
  published downstream are, in order, an initial part of the frames the producer behind
  that subscription sent on the topic: what one source sent is forwarded in the order
  sent, with no frame of the source left out before a forwarded one. This holds after
  any events, in any interleaving of the threads, and with any transport error.
  Nothing is said about the order between sources.
\<close>

theorem per_source_order_preserved:
  "(i < length std_sensor_ports \<longrightarrow>
      prefix (filter (prefix (std_topics ! i)) (publisher_sent (std_run evs std_init)))
        (std_offered i (std_topics ! i) evs))
   \<and> (i < length thr_sensor_ports \<longrightarrow>
      prefix (filter (prefix (thr_topics ! i)) (pub_sent (coll (thr_run tevs thr_init))))
        (thr_offered i (thr_topics ! i) tevs))"
  using std_run_inv [of evs] thr_run_inv [of tevs]
    std_subscribers_length [of evs] thr_workers_length [of tevs]
  by (simp add: std_inv_def std_ordered_def thr_inv_def thr_base_def)

theorem per_source_order_preserved_witness:
  "0 < length std_sensor_ports
   \<and> prefix
        (filter (prefix (std_topics ! 0))
          (publisher_sent
            (std_run [Arrive 0 ''camara a'', Arrive 2 ''gps x'', Arrive 0 ''camara b'',
                      Step None, Step None, Step None, Step None] std_init)))
        (std_offered 0 (std_topics ! 0)
          [Arrive 0 ''camara a'', Arrive 2 ''gps x'', Arrive 0 ''camara b'',
           Step None, Step None, Step None, Step None])
   \<and> filter (prefix (std_topics ! 0))
          (publisher_sent
            (std_run [Arrive 0 ''camara a'', Arrive 2 ''gps x'', Arrive 0 ''camara b'',
                      Step None, Step None, Step None, Step None] std_init))
       = [''camara a'', ''camara b'']
   \<and> 0 < length thr_sensor_ports
   \<and> prefix
        (filter (prefix (thr_topics ! 0))
          (pub_sent (coll
            (thr_run [TArrive 0 ''camara a'', TArrive 2 ''gps x'', TArrive 0 ''camara b'',
                      WorkerStep 0 None, WorkerStep 0 None, WorkerStep 2 None,
                      WorkerStep 2 None, WorkerStep 0 None, WorkerStep 0 None,
                      CollectorStep 2 None, CollectorStep 2 None, CollectorStep 2 None,
                      CollectorStep 2 None, CollectorStep 2 None, CollectorStep 2 None]
               thr_init))))
        (thr_offered 0 (thr_topics ! 0)
          [TArrive 0 ''camara a'', TArrive 2 ''gps x'', TArrive 0 ''camara b'',
           WorkerStep 0 None, WorkerStep 0 None, WorkerStep 2 None,
           WorkerStep 2 None, WorkerStep 0 None, WorkerStep 0 None,
           CollectorStep 2 None, CollectorStep 2 None, CollectorStep 2 None,
           CollectorStep 2 None, CollectorStep 2 None, CollectorStep 2 None])
   \<and> pub_sent (coll
          (thr_run [TArrive 0 ''camara a'', TArrive 2 ''gps x'', TArrive 0 ''camara b'',
                    WorkerStep 0 None, WorkerStep 0 None, WorkerStep 2 None,
                    WorkerStep 2 None, WorkerStep 0 None, WorkerStep 0 None,
                    CollectorStep 2 None, CollectorStep 2 None, CollectorStep 2 None,
                    CollectorStep 2 None, CollectorStep 2 None, CollectorStep 2 None]
             thr_init))
       = [''gps x'', ''camara a'', ''camara b'']"
proof -
  let ?evs = "[Arrive 0 ''camara a'', Arrive 2 ''gps x'', Arrive 0 ''camara b'',
               Step None, Step None, Step None, Step None]"
  let ?tevs = "[TArrive 0 ''camara a'', TArrive 2 ''gps x'', TArrive 0 ''camara b'',
                WorkerStep 0 None, WorkerStep 0 None, WorkerStep 2 None,
                WorkerStep 2 None, WorkerStep 0 None, WorkerStep 0 None,
                CollectorStep 2 None, CollectorStep 2 None, CollectorStep 2 None,
                CollectorStep 2 None, CollectorStep 2 None, CollectorStep 2 None]"
  have a: "0 < length std_sensor_ports" by (simp add: std_sensor_ports_def)
  have b: "0 < length thr_sensor_ports" by (simp add: thr_sensor_ports_def)
  have c: "filter (prefix (std_topics ! 0)) (publisher_sent (std_run ?evs std_init))
             = [''camara a'', ''camara b'']"
    by code_simp
  have d: "pub_sent (coll (thr_run ?tevs thr_init)) = [''gps x'', ''camara a'', ''camara b'']"
    by code_simp
  from per_source_order_preserved [of 0 ?evs ?tevs] a b c d
  show ?thesis by simp
qed

lemma worker_step_blocks:
  assumes "i < length (workers t)" "w_pc (workers t ! i) = AtPoll"
    "inbox (w_sub (workers t ! i)) = m # rest" "pull_closed (coll t)"
  shows "worker_step None i t =
           set_worker i ((workers t ! i)
              \<lparr>w_sub := (w_sub (workers t ! i))\<lparr>inbox := rest\<rparr>, w_pc := Blocked\<rparr>) t"
  using assms
  by (simp add: worker_step_def worker_iteration_result Let_def)

lemma worker_step_forward:
  assumes "i < length (workers t)" "w_pc (workers t ! i) = AtPoll"
    "inbox (w_sub (workers t ! i)) = m # rest" "\<not> pull_closed (coll t)"
  shows "workers (worker_step None i t) =
           (workers t)[i := (workers t ! i)
              \<lparr>w_sub := (w_sub (workers t ! i))\<lparr>inbox := rest\<rparr>,
               w_pipe := w_pipe (workers t ! i) @ [m],
               w_count := w_count (workers t ! i) + 1,
               w_pc := AtWhile\<rparr>]
         \<and> coll (worker_step None i t) = coll t
         \<and> thr_running (worker_step None i t) = thr_running t
         \<and> thr_logged (worker_step None i t) = thr_logged t"
  using assms
  by (simp add: worker_step_def worker_iteration_result Let_def set_worker_def emit_def)

lemma collector_step_forward:
  assumes "c_pc (coll t) = AtPoll" "pull_recv k (workers t) = Some (m, ws')"
  shows "collector_step k None t =
           t\<lparr>workers := ws',
             coll := (coll t)\<lparr>pub_sent := pub_sent (coll t) @ [m],
                        c_event_count := c_event_count (coll t) + 1,
                        c_pc := AtWhile\<rparr>,
             thr_logged := thr_logged t @
               [LogForward (c_event_count (coll t) + 1) (topic_of m) (length m)]\<rparr>"
proof -
  from pull_recv_Some [OF assms(2)] obtain i where "i < length (workers t)" "w_pipe (workers t ! i) \<noteq> []"
    by auto
  then have "\<exists>w \<in> set (workers t). w_pipe w \<noteq> []"
    using nth_mem by blast
  then show ?thesis using assms
    by (simp add: collector_step_def collector_iteration_def zmq_poll_def emit_def)
qed

text \<open>
  C1. The frame a relay forwards is the frame it received, unchanged: the forward step
  of the single-threaded relay hands to the publisher exactly the frame taken from the
  subscription; a worker puts into the pipe exactly the frame taken from its
  subscription (and nothing when its send waits because the collector's PULL socket is
  closed); the collector hands to the publisher exactly the frame taken from the
  pipe. Hence, after any events, every frame published downstream by either relay is a
  frame that a producer sent.
\<close>

theorem forwarded_frame_identical:
  "(inbox (subscribers s ! i) = m # rest \<longrightarrow>
      fst (std_forward None i s) = Normal
      \<and> publisher_sent (snd (std_forward None i s)) = publisher_sent s @ [m])
   \<and> (j < length (workers t) \<and> w_pc (workers t ! j) = AtPoll
        \<and> inbox (w_sub (workers t ! j)) = m' # rest' \<longrightarrow>
      w_pipe (workers (worker_step None j t) ! j) =
        (if pull_closed (coll t) then w_pipe (workers t ! j)
         else w_pipe (workers t ! j) @ [m']))
   \<and> (c_pc (coll u) = AtPoll \<and> pull_recv k (workers u) = Some (m'', ws') \<longrightarrow>
      (\<exists>n<length (workers u). hd (w_pipe (workers u ! n)) = m'')
      \<and> pub_sent (coll (collector_step k None u)) = pub_sent (coll u) @ [m''])
   \<and> (\<forall>f \<in> set (publisher_sent (std_run evs std_init)). \<exists>n. Arrive n f \<in> set evs)
   \<and> (\<forall>f \<in> set (pub_sent (coll (thr_run tevs thr_init))). \<exists>n. TArrive n f \<in> set tevs)"
proof (intro conjI impI ballI)
  assume "inbox (subscribers s ! i) = m # rest"
  from std_forward_result [OF this, of None]
  show "fst (std_forward None i s) = Normal"
    and "publisher_sent (snd (std_forward None i s)) = publisher_sent s @ [m]"
    by simp_all
next
  assume "j < length (workers t) \<and> w_pc (workers t ! j) = AtPoll
        \<and> inbox (w_sub (workers t ! j)) = m' # rest'"
  then show "w_pipe (workers (worker_step None j t) ! j) =
        (if pull_closed (coll t) then w_pipe (workers t ! j)
         else w_pipe (workers t ! j) @ [m'])"
    using worker_step_forward [of j t m' rest'] worker_step_blocks [of j t m' rest']
    by (simp add: set_worker_def)
next
  assume a: "c_pc (coll u) = AtPoll \<and> pull_recv k (workers u) = Some (m'', ws')"
  then show "pub_sent (coll (collector_step k None u)) = pub_sent (coll u) @ [m'']"
    using collector_step_forward [of u k m'' ws'] by simp
  from a pull_recv_Some [of k "workers u" m'' ws']
  show "\<exists>n<length (workers u). hd (w_pipe (workers u ! n)) = m''"
    by fastforce
next
  fix f assume "f \<in> set (publisher_sent (std_run evs std_init))"
  then show "\<exists>n. Arrive n f \<in> set evs" by (rule std_published_arrived)
next
  fix f assume "f \<in> set (pub_sent (coll (thr_run tevs thr_init)))"
  then show "\<exists>n. TArrive n f \<in> set tevs" by (rule thr_published_arrived)
qed

theorem forwarded_frame_identical_witness:
  "inbox (subscribers (std_run [Arrive 0 ''camara a'', Step None] std_init) ! 0)
     = ''camara a'' # []
   \<and> publisher_sent (snd (std_forward None 0
        (std_run [Arrive 0 ''camara a'', Step None] std_init))) = [''camara a'']
   \<and> w_pc (workers (thr_run [TArrive 2 ''gps x'', WorkerStep 2 None] thr_init) ! 2) = AtPoll
   \<and> inbox (w_sub (workers (thr_run [TArrive 2 ''gps x'', WorkerStep 2 None] thr_init) ! 2))
     = ''gps x'' # []
   \<and> w_pipe (workers (worker_step None 2
        (thr_run [TArrive 2 ''gps x'', WorkerStep 2 None] thr_init)) ! 2) = [''gps x'']
   \<and> c_pc (coll (thr_run [TArrive 2 ''gps x'', WorkerStep 2 None, WorkerStep 2 None,
        CollectorStep 0 None] thr_init)) = AtPoll
   \<and> pub_sent (coll (collector_step 0 None
        (thr_run [TArrive 2 ''gps x'', WorkerStep 2 None, WorkerStep 2 None,
          CollectorStep 0 None] thr_init))) = [''gps x'']
   \<and> ''camara a'' \<in> set (publisher_sent
        (std_run [Arrive 0 ''camara a'', Step None, Step None] std_init))
   \<and> (\<exists>n. Arrive n ''camara a'' \<in> set [Arrive 0 ''camara a'', Step None, Step None])
   \<and> ''gps x'' \<in> set (pub_sent (coll
        (thr_run [TArrive 2 ''gps x'', WorkerStep 2 None, WorkerStep 2 None,
          CollectorStep 0 None, CollectorStep 0 None] thr_init)))
   \<and> (\<exists>n. TArrive n ''gps x'' \<in> set [TArrive 2 ''gps x'', WorkerStep 2 None,
          WorkerStep 2 None, CollectorStep 0 None, CollectorStep 0 None])"
proof -
  let ?s = "std_run [Arrive 0 ''camara a'', Step None] std_init"
  let ?t = "thr_run [TArrive 2 ''gps x'', WorkerStep 2 None] thr_init"
  let ?u = "thr_run [TArrive 2 ''gps x'', WorkerStep 2 None, WorkerStep 2 None,
              CollectorStep 0 None] thr_init"
  let ?evs = "[Arrive 0 ''camara a'', Step None, Step None]"
  let ?tevs = "[TArrive 2 ''gps x'', WorkerStep 2 None, WorkerStep 2 None,
                CollectorStep 0 None, CollectorStep 0 None]"
  let ?ws = "(workers ?u)[2 := (workers ?u ! 2)\<lparr>w_pipe := []\<rparr>]"
  have h1: "inbox (subscribers ?s ! 0) = ''camara a'' # []" by code_simp
  have p1: "publisher_sent ?s = []" by code_simp
  have h2: "2 < length (workers ?t)" "w_pc (workers ?t ! 2) = AtPoll"
    "inbox (w_sub (workers ?t ! 2)) = ''gps x'' # []" by code_simp+
  have p2: "w_pipe (workers ?t ! 2) = []" by code_simp
  have q2: "\<not> pull_closed (coll ?t)" by code_simp
  have h3: "c_pc (coll ?u) = AtPoll" "pull_recv 0 (workers ?u) = Some (''gps x'', ?ws)"
    by code_simp+
  have p3: "pub_sent (coll ?u) = []" by code_simp
  have h4: "''camara a'' \<in> set (publisher_sent (std_run ?evs std_init))" by code_simp
  have h5: "''gps x'' \<in> set (pub_sent (coll (thr_run ?tevs thr_init)))" by code_simp
  note inst = forwarded_frame_identical [where s="?s" and i=0 and m="''camara a''" and rest="[]"
      and t="?t" and j=2 and m'="''gps x''" and rest'="[]"
      and u="?u" and k=0 and m''="''gps x''" and ws'="?ws" and evs="?evs" and tevs="?tevs"]
  from inst h1 have c1: "publisher_sent (snd (std_forward None 0 ?s)) = publisher_sent ?s @ [''camara a'']"
    by blast
  from inst h2 have "w_pipe (workers (worker_step None 2 ?t) ! 2) =
        (if pull_closed (coll ?t) then w_pipe (workers ?t ! 2)
         else w_pipe (workers ?t ! 2) @ [''gps x''])"
    by blast
  with q2 have c2: "w_pipe (workers (worker_step None 2 ?t) ! 2) = w_pipe (workers ?t ! 2) @ [''gps x'']"
    by simp
  from inst h3 have c3: "pub_sent (coll (collector_step 0 None ?u)) = pub_sent (coll ?u) @ [''gps x'']"
    by blast
  from inst h4 have c4: "\<exists>n. Arrive n ''camara a'' \<in> set ?evs" by blast
  from inst h5 have c5: "\<exists>n. TArrive n ''gps x'' \<in> set ?tevs" by blast
  show ?thesis
    using h1 h2 h3 h4 h5 c1 c2 c3 c4 c5 unfolding p1 p2 p3 by (intro conjI) simp_all
qed

section \<open>The shutdown flag\<close>

lemma funpow_std_signal_handler:
  "(std_signal_handler ^^ Suc n) s =
     s\<lparr>logged := logged s @ replicate (Suc n) LogSignal, running := False\<rparr>"
proof (induction n)
  case 0
  then show ?case by (simp add: std_signal_handler_def)
next
  case (Suc n)
  have "(std_signal_handler ^^ Suc (Suc n)) s = std_signal_handler ((std_signal_handler ^^ Suc n) s)"
    by simp
  also have "\<dots> = s\<lparr>logged := logged s @ replicate (Suc (Suc n)) LogSignal, running := False\<rparr>"
    unfolding Suc.IH by (simp add: std_signal_handler_def replicate_append_same)
  finally show ?case .
qed

lemma funpow_thr_signal_handler:
  "(thr_signal_handler ^^ Suc n) s =
     s\<lparr>thr_logged := thr_logged s @ replicate (Suc n) LogSignal, thr_running := False\<rparr>"
proof (induction n)
  case 0
  then show ?case by (simp add: thr_signal_handler_def)
next
  case (Suc n)
  have "(thr_signal_handler ^^ Suc (Suc n)) s = thr_signal_handler ((thr_signal_handler ^^ Suc n) s)"
    by simp
  also have "\<dots> = s\<lparr>thr_logged := thr_logged s @ replicate (Suc (Suc n)) LogSignal, thr_running := False\<rparr>"
    unfolding Suc.IH by (simp add: thr_signal_handler_def replicate_append_same)
  finally show ?case .
qed

text \<open>
  C6. The signal handler is idempotent on the shutdown flag: after one or more
  invocations the flag is false, as after one, and nothing else of the relay's state
  has changed; each invocation writes one line to the log. This holds for the handler
  of either relay.
\<close>

theorem signal_handler_idempotent:
  "running ((std_signal_handler ^^ Suc n) s) = running (std_signal_handler s)
   \<and> running (std_signal_handler s) = False
   \<and> (std_signal_handler ^^ Suc n) s =
       s\<lparr>logged := logged s @ replicate (Suc n) LogSignal, running := False\<rparr>
   \<and> thr_running ((thr_signal_handler ^^ Suc n) t) = thr_running (thr_signal_handler t)
   \<and> thr_running (thr_signal_handler t) = False
   \<and> (thr_signal_handler ^^ Suc n) t =
       t\<lparr>thr_logged := thr_logged t @ replicate (Suc n) LogSignal, thr_running := False\<rparr>"
  unfolding funpow_std_signal_handler funpow_thr_signal_handler
  by (simp add: std_signal_handler_def thr_signal_handler_def)

section \<open>One pass of the single-threaded relay's loop\<close>

lemma std_for_subs_exact:
  assumes "distinct js"
    and "\<forall>j\<in>set js. j < length (subscribers s) \<and> socks ! j = (inbox (subscribers s ! j) \<noteq> [])"
  shows "\<exists>s'. std_for_subs None socks js s = (Normal, s')
      \<and> publisher_sent s' = publisher_sent s @
            map (\<lambda>j. hd (inbox (subscribers s ! j)))
              (filter (\<lambda>j. inbox (subscribers s ! j) \<noteq> []) js)
      \<and> length (subscribers s') = length (subscribers s)
      \<and> (\<forall>j<length (subscribers s). inbox (subscribers s' ! j) =
            (if j \<in> set js then tl (inbox (subscribers s ! j)) else inbox (subscribers s ! j)))
      \<and> event_count s' = event_count s
            + length (filter (\<lambda>j. inbox (subscribers s ! j) \<noteq> []) js)
      \<and> std_pc s' = std_pc s \<and> running s' = running s"
  using assms
proof (induction js arbitrary: s)
  case Nil
  then show ?case by simp
next
  case (Cons i rest)
  from Cons.prems have i: "i < length (subscribers s)" "i \<notin> set rest" "distinct rest"
    and si: "socks ! i = (inbox (subscribers s ! i) \<noteq> [])" by auto
  show ?case
  proof (cases "inbox (subscribers s ! i)")
    case Nil
    with si have ns: "\<not> socks ! i" by simp
    from Cons.IH [of s] Cons.prems i obtain s' where
      r: "std_for_subs None socks rest s = (Normal, s')"
      "publisher_sent s' = publisher_sent s @
            map (\<lambda>j. hd (inbox (subscribers s ! j)))
              (filter (\<lambda>j. inbox (subscribers s ! j) \<noteq> []) rest)"
      "length (subscribers s') = length (subscribers s)"
      "\<forall>j<length (subscribers s). inbox (subscribers s' ! j) =
            (if j \<in> set rest then tl (inbox (subscribers s ! j)) else inbox (subscribers s ! j))"
      "event_count s' = event_count s
            + length (filter (\<lambda>j. inbox (subscribers s ! j) \<noteq> []) rest)"
      "std_pc s' = std_pc s" "running s' = running s"
      by auto
    show ?thesis
      using r ns Nil i by (intro exI [of _ s']) auto
  next
    case (Cons m ms)
    with si have ys: "socks ! i" by simp
    let ?s1 = "s\<lparr>subscribers := (subscribers s)[i := (subscribers s ! i)\<lparr>inbox := ms\<rparr>],
                  publisher_sent := publisher_sent s @ [m],
                  event_count := event_count s + 1,
                  logged := logged s @ [LogForward (event_count s + 1) (topic_of m) (length m)]\<rparr>"
    have f: "std_forward None i s = (Normal, ?s1)"
      using std_forward_result [OF Cons, of None] by simp
    have same: "subscribers ?s1 ! j = subscribers s ! j" if "j \<in> set rest" for j
      using that i by (auto simp: nth_list_update)
    have pre: "\<forall>j\<in>set rest. j < length (subscribers ?s1)
                 \<and> socks ! j = (inbox (subscribers ?s1 ! j) \<noteq> [])"
      using Cons.prems(2) same by auto
    from Cons.IH [OF i(3) pre] obtain s' where
      r: "std_for_subs None socks rest ?s1 = (Normal, s')"
      "publisher_sent s' = publisher_sent ?s1 @
            map (\<lambda>j. hd (inbox (subscribers ?s1 ! j)))
              (filter (\<lambda>j. inbox (subscribers ?s1 ! j) \<noteq> []) rest)"
      "length (subscribers s') = length (subscribers ?s1)"
      "\<forall>j<length (subscribers ?s1). inbox (subscribers s' ! j) =
            (if j \<in> set rest then tl (inbox (subscribers ?s1 ! j)) else inbox (subscribers ?s1 ! j))"
      "event_count s' = event_count ?s1
            + length (filter (\<lambda>j. inbox (subscribers ?s1 ! j) \<noteq> []) rest)"
      "std_pc s' = std_pc ?s1" "running s' = running ?s1"
      by blast
    have fl: "filter (\<lambda>j. inbox (subscribers ?s1 ! j) \<noteq> []) rest
            = filter (\<lambda>j. inbox (subscribers s ! j) \<noteq> []) rest"
      by (rule filter_cong) (use same in auto)
    have mp: "map (\<lambda>j. hd (inbox (subscribers ?s1 ! j))) (filter (\<lambda>j. inbox (subscribers s ! j) \<noteq> []) rest)
            = map (\<lambda>j. hd (inbox (subscribers s ! j))) (filter (\<lambda>j. inbox (subscribers s ! j) \<noteq> []) rest)"
      by (rule map_cong) (use same in auto)
    have inb: "inbox (subscribers s' ! j) =
            (if j \<in> set (i # rest) then tl (inbox (subscribers s ! j)) else inbox (subscribers s ! j))"
      if "j < length (subscribers s)" for j
    proof -
      from r(4) that have "inbox (subscribers s' ! j) =
            (if j \<in> set rest then tl (inbox (subscribers ?s1 ! j)) else inbox (subscribers ?s1 ! j))"
        by simp
      then show ?thesis using same [of j] i Cons that
        by (cases "j = i") (auto simp: nth_list_update)
    qed
    show ?thesis
      using r(1,3,5,6,7) r(2) [unfolded fl mp] fl f ys Cons inb
      by (intro exI [of _ s']) (simp add: local.Cons)
  qed
qed

text \<open>
  C3 (as amended). One pass of the loop body of the single-threaded relay, with no
  error, receives and forwards exactly one frame from every subscription that has a
  frame waiting at the poll, in the order of the subscribers, and then goes back to the
  test of the loop. A subscription with more than one frame waiting keeps the others
  for the next passes: it is served once per pass, not drained.
\<close>

theorem std_iteration_one_frame_per_ready_subscription:
  assumes "std_pc s = AtPoll"
  shows "std_pc (std_step None s) = AtWhile
     \<and> publisher_sent (std_step None s) = publisher_sent s @
          map (\<lambda>j. hd (inbox (subscribers s ! j)))
            (filter (\<lambda>j. inbox (subscribers s ! j) \<noteq> []) [0..<length (subscribers s)])
     \<and> length (subscribers (std_step None s)) = length (subscribers s)
     \<and> (\<forall>j<length (subscribers s).
           inbox (subscribers (std_step None s) ! j) = tl (inbox (subscribers s ! j)))
     \<and> event_count (std_step None s) = event_count s
          + length (filter (\<lambda>j. inbox (subscribers s ! j) \<noteq> []) [0..<length (subscribers s)])"
proof -
  let ?socks = "map (\<lambda>sub. inbox sub \<noteq> []) (subscribers s)"
  have pp: "poller_poll (Some 1000) (subscribers s) = Some ?socks"
    by (simp add: poller_poll_def zmq_poll_def Let_def)
  have "\<forall>j\<in>set [0..<length (subscribers s)]. j < length (subscribers s)
          \<and> ?socks ! j = (inbox (subscribers s ! j) \<noteq> [])"
    by simp
  from std_for_subs_exact [OF _ this] obtain s' where
    r: "std_for_subs None ?socks [0..<length (subscribers s)] s = (Normal, s')"
      "publisher_sent s' = publisher_sent s @
            map (\<lambda>j. hd (inbox (subscribers s ! j)))
              (filter (\<lambda>j. inbox (subscribers s ! j) \<noteq> []) [0..<length (subscribers s)])"
      "length (subscribers s') = length (subscribers s)"
      "\<forall>j<length (subscribers s). inbox (subscribers s' ! j) =
            (if j \<in> set [0..<length (subscribers s)] then tl (inbox (subscribers s ! j))
             else inbox (subscribers s ! j))"
      "event_count s' = event_count s
            + length (filter (\<lambda>j. inbox (subscribers s ! j) \<noteq> []) [0..<length (subscribers s)])"
    by auto
  have st: "std_step None s = s'\<lparr>std_pc := AtWhile\<rparr>"
    using assms pp r(1) by (simp add: std_step_def std_iteration_def)
  show ?thesis unfolding st using r(2,3,4,5) by simp
qed

theorem std_iteration_one_frame_per_ready_subscription_witness:
  "std_pc (std_run [Arrive 0 ''camara a'', Arrive 2 ''gps x'', Arrive 0 ''camara b'', Step None]
            std_init) = AtPoll
   \<and> publisher_sent (std_step None
        (std_run [Arrive 0 ''camara a'', Arrive 2 ''gps x'', Arrive 0 ''camara b'', Step None]
           std_init)) = [''camara a'', ''gps x'']
   \<and> map inbox (subscribers (std_step None
        (std_run [Arrive 0 ''camara a'', Arrive 2 ''gps x'', Arrive 0 ''camara b'', Step None]
           std_init))) = [[''camara b''], [], []]
   \<and> std_pc (std_step None
        (std_run [Arrive 0 ''camara a'', Arrive 2 ''gps x'', Arrive 0 ''camara b'', Step None]
           std_init)) = AtWhile"
proof -
  let ?s = "std_run [Arrive 0 ''camara a'', Arrive 2 ''gps x'', Arrive 0 ''camara b'', Step None]
              std_init"
  have h: "std_pc ?s = AtPoll" by code_simp
  have a: "publisher_sent ?s @
          map (\<lambda>j. hd (inbox (subscribers ?s ! j)))
            (filter (\<lambda>j. inbox (subscribers ?s ! j) \<noteq> []) [0..<length (subscribers ?s)])
          = [''camara a'', ''gps x'']" by code_simp
  have b: "map inbox (subscribers (std_step None ?s)) = [[''camara b''], [], []]" by code_simp
  from std_iteration_one_frame_per_ready_subscription [OF h] a b h
  show ?thesis by simp
qed

text \<open>
  A ready subscription is not drained: with two frames waiting on the first
  subscription, one pass forwards the first of them and returns to the test of the loop
  with the second still waiting.
\<close>

theorem std_iteration_drains_counterexample:
  "std_pc (std_run [Arrive 0 ''camara a'', Arrive 0 ''camara b'', Step None] std_init) = AtPoll
   \<and> inbox (subscribers
        (std_run [Arrive 0 ''camara a'', Arrive 0 ''camara b'', Step None] std_init) ! 0)
       = [''camara a'', ''camara b'']
   \<and> std_pc (std_run [Arrive 0 ''camara a'', Arrive 0 ''camara b'', Step None, Step None]
        std_init) = AtWhile
   \<and> publisher_sent
        (std_run [Arrive 0 ''camara a'', Arrive 0 ''camara b'', Step None, Step None] std_init)
       = [''camara a'']
   \<and> inbox (subscribers
        (std_run [Arrive 0 ''camara a'', Arrive 0 ''camara b'', Step None, Step None]
           std_init) ! 0)
       = [''camara b'']"
  by code_simp

section \<open>Transport errors\<close>

lemma worker_step_fault:
  assumes i: "i < length (workers t)" and pc: "w_pc (workers t ! i) = AtPoll"
    and fires: "c = Poll \<or> inbox (w_sub (workers t ! i)) \<noteq> []"
  shows "w_pc (workers (worker_step (Some (j, c, ZMQError)) i t) ! i) = Returned
     \<and> sub_closed (w_sub (workers (worker_step (Some (j, c, ZMQError)) i t) ! i))
     \<and> w_push_closed (workers (worker_step (Some (j, c, ZMQError)) i t) ! i)
     \<and> w_pipe (workers (worker_step (Some (j, c, ZMQError)) i t) ! i) = w_pipe (workers t ! i)
     \<and> thr_logged (worker_step (Some (j, c, ZMQError)) i t) =
          thr_logged t
          @ (if thr_running t then [LogWorkerError (w_name (workers t ! i))] else [])
          @ [LogWorkerShutdown (w_name (workers t ! i)) (w_count (workers t ! i))]
     \<and> coll (worker_step (Some (j, c, ZMQError)) i t) = coll t
     \<and> thr_running (worker_step (Some (j, c, ZMQError)) i t) = thr_running t
     \<and> length (workers (worker_step (Some (j, c, ZMQError)) i t)) = length (workers t)
     \<and> (\<forall>k. k \<noteq> i \<longrightarrow> workers (worker_step (Some (j, c, ZMQError)) i t) ! k = workers t ! k)"
proof (cases "inbox (w_sub (workers t ! i))")
  case Nil
  with fires have "c = Poll" by simp
  then show ?thesis using i pc
    by (simp add: worker_step_def worker_iteration_result worker_except_def worker_finally_def
        set_worker_def emit_def sub_close_def Let_def)
next
  case (Cons m rest)
  then show ?thesis using i pc
    by (cases c)
      (simp_all add: worker_step_def worker_iteration_result worker_except_def worker_finally_def
        set_worker_def emit_def sub_close_def Let_def)
qed





lemma std_for_subs_pc:
  "std_for_subs flt socks js s = (out, s') \<Longrightarrow> std_pc s' = std_pc s \<and> running s' = running s"
proof (induction js arbitrary: s)
  case Nil
  then show ?case by simp
next
  case (Cons i rest)
  show ?case
  proof (cases "socks ! i")
    case False
    with Cons show ?thesis by simp
  next
    case True
    obtain o1 s1 where f: "std_forward flt i s = (o1, s1)" by (cases "std_forward flt i s")
    then have p: "std_pc s1 = std_pc s \<and> running s1 = running s"
      by (auto simp: std_forward_def Let_def split: option.splits prod.splits)
    show ?thesis
    proof (cases o1)
      case Normal
      with Cons True f p show ?thesis by simp
    next
      case (Raise e')
      with Cons.prems True f p show ?thesis by auto
    next
      case Block
      with Cons.prems True f p show ?thesis by auto
    qed
  qed
qed


lemma thr_run_append: "thr_run (xs @ ys) s = thr_run ys (thr_run xs s)"
  by (simp add: thr_run_def)

lemma worker_delivers:
  assumes k: "k < length (workers u)" and pc: "w_pc (workers u ! k) = AtWhile"
    and run: "thr_running u" and empty: "inbox (w_sub (workers u ! k)) = []"
    and opn: "\<not> sub_closed (w_sub (workers u ! k))"
    and top: "prefix (topic_filter (w_sub (workers u ! k))) f"
    and pull: "\<not> pull_closed (coll u)"
  shows "w_pipe (workers (thr_run [TArrive k f, WorkerStep k None, WorkerStep k None] u) ! k)
            = w_pipe (workers u ! k) @ [f]
     \<and> length (workers (thr_run [TArrive k f, WorkerStep k None, WorkerStep k None] u))
            = length (workers u)
     \<and> (\<forall>n. n \<noteq> k \<longrightarrow>
           workers (thr_run [TArrive k f, WorkerStep k None, WorkerStep k None] u) ! n
             = workers u ! n)
     \<and> coll (thr_run [TArrive k f, WorkerStep k None, WorkerStep k None] u) = coll u
     \<and> thr_running (thr_run [TArrive k f, WorkerStep k None, WorkerStep k None] u)"
proof -
  let ?w = "workers u ! k"
  let ?w1 = "?w\<lparr>w_sub := (w_sub ?w)\<lparr>inbox := [f]\<rparr>\<rparr>"
  let ?u1 = "set_worker k ?w1 u"
  have a: "thr_apply u (TArrive k f) = ?u1"
    using k pc opn top empty by (simp add: sub_deliver_def)
  let ?w2 = "?w1\<lparr>w_pc := AtPoll\<rparr>"
  let ?u2 = "set_worker k ?w2 ?u1"
  have k1: "k < length (workers ?u1)" "workers ?u1 ! k = ?w1" "thr_running ?u1"
    using k run by (simp_all add: set_worker_def)
  have b: "thr_apply ?u1 (WorkerStep k None) = ?u2"
    using k1 pc by (simp add: worker_step_def)
  have k2: "k < length (workers ?u2)" "workers ?u2 ! k = ?w2"
    using k by (simp_all add: set_worker_def)
  let ?w3 = "?w2\<lparr>w_sub := (w_sub ?w2)\<lparr>inbox := []\<rparr>,
                  w_pipe := w_pipe ?w2 @ [f],
                  w_count := w_count ?w2 + 1,
                  w_pc := AtWhile\<rparr>"
  have c: "workers (thr_apply ?u2 (WorkerStep k None)) = (workers ?u2)[k := ?w3]
         \<and> coll (thr_apply ?u2 (WorkerStep k None)) = coll ?u2
         \<and> thr_running (thr_apply ?u2 (WorkerStep k None)) = thr_running ?u2"
    using worker_step_forward [of k ?u2 f "[]"] k2 pull by (simp add: set_worker_def)
  have r: "thr_run [TArrive k f, WorkerStep k None, WorkerStep k None] u
         = thr_apply ?u2 (WorkerStep k None)"
    by (simp only: thr_run_def foldl.simps a b)
  show ?thesis
    unfolding r using c k run by (simp add: set_worker_def)
qed

lemma collector_publishes:
  assumes pc: "c_pc (coll u) = AtWhile" and run: "thr_running u"
    and k: "k < length (workers u)" and pk: "w_pipe (workers u ! k) = f # rest"
    and others: "\<forall>n<length (workers u). n \<noteq> k \<longrightarrow> w_pipe (workers u ! n) = []"
  shows "pub_sent (coll (thr_run [CollectorStep n None, CollectorStep n None] u))
           = pub_sent (coll u) @ [f]"
proof -
  let ?u1 = "u\<lparr>coll := (coll u)\<lparr>c_pc := AtPoll\<rparr>\<rparr>"
  have s1: "collector_step n None u = ?u1"
    using pc run by (simp add: collector_step_def)
  have "workers u ! k \<in> set (workers u)" using k by simp
  with pk have ex: "\<exists>w\<in>set (workers u). w_pipe w \<noteq> []"
    by (intro bexI [of _ "workers u ! k"]) simp_all
  have "pull_recv n (workers u) \<noteq> None"
    using ex pull_recv_None [of n "workers u"] by blast
  then obtain m ws' where pr: "pull_recv n (workers u) = Some (m, ws')"
    by (cases "pull_recv n (workers u)") auto
  from pull_recv_Some [OF pr] obtain i r where i: "i < length (workers u)"
    "w_pipe (workers u ! i) = m # r" by blast
  have "i = k"
  proof (rule ccontr)
    assume "i \<noteq> k"
    with others i(1) have "w_pipe (workers u ! i) = []" by simp
    with i(2) show False by simp
  qed
  with i pk have "m = f" by simp
  with pr have pr': "pull_recv n (workers ?u1) = Some (f, ws')" by simp
  have pc1: "c_pc (coll ?u1) = AtPoll" by simp
  have "pub_sent (coll (collector_step n None ?u1)) = pub_sent (coll ?u1) @ [f]"
    using collector_step_forward [OF pc1 pr'] by simp
  moreover have "thr_run [CollectorStep n None, CollectorStep n None] u
      = collector_step n None (collector_step n None u)"
    by (simp add: thr_run_def)
  ultimately show ?thesis by (simp add: s1)
qed

lemma worker_step_fault_try:
  assumes i: "i < length (workers t)" and fires: "raises_in_try c (workers t ! i)"
  shows "w_pc (workers (worker_step (Some (j, c, ZMQError)) i t) ! i) = Returned
     \<and> sub_closed (w_sub (workers (worker_step (Some (j, c, ZMQError)) i t) ! i))
     \<and> w_push_closed (workers (worker_step (Some (j, c, ZMQError)) i t) ! i)
     \<and> w_pipe (workers (worker_step (Some (j, c, ZMQError)) i t) ! i) = w_pipe (workers t ! i)
     \<and> thr_logged (worker_step (Some (j, c, ZMQError)) i t) =
          thr_logged t
          @ (if thr_running t then [LogWorkerError (w_name (workers t ! i))] else [])
          @ [LogWorkerShutdown (w_name (workers t ! i)) (w_count (workers t ! i))]
     \<and> coll (worker_step (Some (j, c, ZMQError)) i t) = coll t
     \<and> thr_running (worker_step (Some (j, c, ZMQError)) i t) = thr_running t
     \<and> length (workers (worker_step (Some (j, c, ZMQError)) i t)) = length (workers t)
     \<and> (\<forall>k. k \<noteq> i \<longrightarrow> workers (worker_step (Some (j, c, ZMQError)) i t) ! k = workers t ! k)"
proof (cases "w_pc (workers t ! i) = Blocked")
  case True
  then show ?thesis using i
    by (simp add: worker_step_def worker_except_def worker_finally_def
        set_worker_def emit_def sub_close_def Let_def)
next
  case False
  with fires have "w_pc (workers t ! i) = AtPoll"
    and "c = Poll \<or> inbox (w_sub (workers t ! i)) \<noteq> []"
    by (simp_all add: raises_in_try_def split: pc.splits)
  then show ?thesis using worker_step_fault [OF i, of c j] by simp
qed

lemma worker_step_fault_setup:
  assumes i: "i < length (workers t)" and pc: "w_pc (workers t ! i) = AtSetup"
  shows "workers (worker_step (Some (j, c, e)) i t) ! i = (workers t ! i)\<lparr>w_pc := Raised e\<rparr>
     \<and> thr_logged (worker_step (Some (j, c, e)) i t) = thr_logged t
     \<and> coll (worker_step (Some (j, c, e)) i t) = coll t
     \<and> thr_running (worker_step (Some (j, c, e)) i t) = thr_running t
     \<and> length (workers (worker_step (Some (j, c, e)) i t)) = length (workers t)
     \<and> (\<forall>k. k \<noteq> i \<longrightarrow> workers (worker_step (Some (j, c, e)) i t) ! k = workers t ! k)"
  using i pc by (simp add: worker_step_def worker_setup_def set_worker_def Let_def)

text \<open>
  With one worker changed in any way that leaves its queue of the pipe as it was, a
  frame arriving for another worker that is idle goes through that worker and the
  collector.
\<close>

lemma frame_still_published:
  assumes len: "length (workers t') = length (workers t)"
    and same: "\<forall>k. k \<noteq> i \<longrightarrow> workers t' ! k = workers t ! k"
    and pipe_i: "w_pipe (workers t' ! i) = w_pipe (workers t ! i)"
    and cl: "coll t' = coll t" and run: "thr_running t'"
    and k: "k < length (workers t)" "k \<noteq> i" and pk: "w_pc (workers t ! k) = AtWhile"
    and ik: "inbox (w_sub (workers t ! k)) = []" and ok: "\<not> sub_closed (w_sub (workers t ! k))"
    and tk: "prefix (topic_filter (w_sub (workers t ! k))) f"
    and cc: "c_pc (coll t) = AtWhile" and pe: "\<forall>n<length (workers t). w_pipe (workers t ! n) = []"
    and pull: "\<not> pull_closed (coll t)"
  shows "pub_sent (coll (thr_run [TArrive k f, WorkerStep k None, WorkerStep k None,
                                  CollectorStep q None, CollectorStep q None] t'))
           = pub_sent (coll t) @ [f]"
proof -
  let ?u = "thr_run [TArrive k f, WorkerStep k None, WorkerStep k None] t'"
  have sk: "workers t' ! k = workers t ! k" using same k by simp
  have k': "k < length (workers t')" using k len by simp
  have wd: "w_pipe (workers ?u ! k) = w_pipe (workers t' ! k) @ [f]"
    "length (workers ?u) = length (workers t')"
    "\<forall>n. n \<noteq> k \<longrightarrow> workers ?u ! n = workers t' ! n"
    "coll ?u = coll t'" "thr_running ?u"
    using worker_delivers [of k t' f] k' sk pk run ik ok tk pull cl by simp_all
  have pipe_k: "w_pipe (workers ?u ! k) = f # []"
    using wd(1) sk pe k by simp
  have others: "\<forall>n<length (workers ?u). n \<noteq> k \<longrightarrow> w_pipe (workers ?u ! n) = []"
  proof (intro allI impI)
    fix n assume n: "n < length (workers ?u)" "n \<noteq> k"
    then have nl: "n < length (workers t)" using wd(2) len by simp
    show "w_pipe (workers ?u ! n) = []"
    proof (cases "n = i")
      case True
      then show ?thesis using wd(3) n pipe_i pe nl by simp
    next
      case False
      then show ?thesis using wd(3) n same pe nl by simp
    qed
  qed
  have cu: "c_pc (coll ?u) = AtWhile" using wd(4) cl cc by simp
  have ku: "k < length (workers ?u)" using wd(2) len k by simp
  have "pub_sent (coll (thr_run [CollectorStep q None, CollectorStep q None] ?u))
          = pub_sent (coll ?u) @ [f]"
    by (rule collector_publishes [OF cu wd(5) ku pipe_k others])
  moreover have "thr_run [TArrive k f, WorkerStep k None, WorkerStep k None,
                          CollectorStep q None, CollectorStep q None] t'
        = thr_run [CollectorStep q None, CollectorStep q None] ?u"
    using thr_run_append [of "[TArrive k f, WorkerStep k None, WorkerStep k None]"
        "[CollectorStep q None, CollectorStep q None]" t'] by simp
  ultimately show ?thesis using wd(4) cl by simp
qed

text \<open>
  The workers set up one after the other, with no error, reach the state from which the
  relay's loops are studied, with the three connections logged.
\<close>

lemma thr_boot_reaches_thr_init:
  "thr_run [WorkerStep 0 None, WorkerStep 1 None, WorkerStep 2 None] thr_boot
     = thr_init\<lparr>thr_logged := [LogWorkerConnected ''Thread-Camera'' ''camara'',
                                LogWorkerConnected ''Thread-Inductive'' ''espira'',
                                LogWorkerConnected ''Thread-GPS'' ''gps'']\<rparr>"
  by (simp add: thr_run_def thr_boot_def thr_init_def thr_sensor_ports_def worker_boot_def
      worker_start_def worker_step_def worker_setup_def set_worker_def emit_def Let_def)

text \<open>
  C5 (as amended). In the multi-threaded relay, while the relay is running, a transport
  error raised in a worker inside its \<open>try\<close> statement (by the poll, the receive or
  the send of its loop) is logged as an error and ends that worker: the worker closes its
  two sockets and its function returns. A transport error raised while the worker sets
  up its sockets, before the \<open>try\<close> statement, ends that worker as well, but leaves
  the worker's function as an exception: the worker logs nothing and closes no socket.
  In both cases the collector, the other workers and the shutdown flag are untouched, and
  a frame that then arrives for another worker still goes through that worker and the
  running collector to the downstream publisher.
\<close>

theorem worker_failure_isolated:
  assumes "i < length (workers t)" and "thr_running t"
    and "w_pc (workers t ! i) = AtSetup \<or> raises_in_try c (workers t ! i)"
  shows "(raises_in_try c (workers t ! i) \<longrightarrow>
            w_pc (workers (worker_step (Some (j, c, ZMQError)) i t) ! i) = Returned
          \<and> sub_closed (w_sub (workers (worker_step (Some (j, c, ZMQError)) i t) ! i))
          \<and> w_push_closed (workers (worker_step (Some (j, c, ZMQError)) i t) ! i)
          \<and> thr_logged (worker_step (Some (j, c, ZMQError)) i t) =
              thr_logged t @ [LogWorkerError (w_name (workers t ! i)),
                              LogWorkerShutdown (w_name (workers t ! i)) (w_count (workers t ! i))])
     \<and> (w_pc (workers t ! i) = AtSetup \<longrightarrow>
            workers (worker_step (Some (j, c, ZMQError)) i t) ! i
              = (workers t ! i)\<lparr>w_pc := Raised ZMQError\<rparr>
          \<and> thr_logged (worker_step (Some (j, c, ZMQError)) i t) = thr_logged t)
     \<and> coll (worker_step (Some (j, c, ZMQError)) i t) = coll t
     \<and> thr_running (worker_step (Some (j, c, ZMQError)) i t)
     \<and> length (workers (worker_step (Some (j, c, ZMQError)) i t)) = length (workers t)
     \<and> (\<forall>k. k \<noteq> i \<longrightarrow> workers (worker_step (Some (j, c, ZMQError)) i t) ! k = workers t ! k)
     \<and> (\<forall>k f. k < length (workers t) \<and> k \<noteq> i \<and> w_pc (workers t ! k) = AtWhile
            \<and> inbox (w_sub (workers t ! k)) = [] \<and> \<not> sub_closed (w_sub (workers t ! k))
            \<and> prefix (topic_filter (w_sub (workers t ! k))) f
            \<and> c_pc (coll t) = AtWhile \<and> \<not> pull_closed (coll t)
            \<and> (\<forall>n<length (workers t). w_pipe (workers t ! n) = [])
          \<longrightarrow> pub_sent (coll (thr_run [TArrive k f, WorkerStep k None, WorkerStep k None,
                                        CollectorStep q None, CollectorStep q None]
                                (worker_step (Some (j, c, ZMQError)) i t)))
                = pub_sent (coll t) @ [f])"
proof -
  let ?t' = "worker_step (Some (j, c, ZMQError)) i t"
  have in_try: "w_pc (workers ?t' ! i) = Returned
          \<and> sub_closed (w_sub (workers ?t' ! i)) \<and> w_push_closed (workers ?t' ! i)
          \<and> thr_logged ?t' =
              thr_logged t @ [LogWorkerError (w_name (workers t ! i)),
                              LogWorkerShutdown (w_name (workers t ! i)) (w_count (workers t ! i))]"
    if "raises_in_try c (workers t ! i)"
    using worker_step_fault_try [OF assms(1) that, of j] assms(2) by simp
  have in_setup: "workers ?t' ! i = (workers t ! i)\<lparr>w_pc := Raised ZMQError\<rparr>
          \<and> thr_logged ?t' = thr_logged t"
    if "w_pc (workers t ! i) = AtSetup"
    using worker_step_fault_setup [OF assms(1) that, of j c ZMQError] by simp
  have common: "w_pipe (workers ?t' ! i) = w_pipe (workers t ! i)
     \<and> coll ?t' = coll t \<and> thr_running ?t' = thr_running t
     \<and> length (workers ?t') = length (workers t)
     \<and> (\<forall>k. k \<noteq> i \<longrightarrow> workers ?t' ! k = workers t ! k)"
  proof (cases "w_pc (workers t ! i) = AtSetup")
    case True
    then show ?thesis using worker_step_fault_setup [OF assms(1) True, of j c ZMQError] by simp
  next
    case False
    with assms(3) have "raises_in_try c (workers t ! i)" by simp
    then show ?thesis using worker_step_fault_try [OF assms(1), of c j] by simp
  qed
  have progress: "pub_sent (coll (thr_run [TArrive k f, WorkerStep k None, WorkerStep k None,
                                        CollectorStep q None, CollectorStep q None] ?t'))
                = pub_sent (coll t) @ [f]"
    if "k < length (workers t) \<and> k \<noteq> i \<and> w_pc (workers t ! k) = AtWhile
            \<and> inbox (w_sub (workers t ! k)) = [] \<and> \<not> sub_closed (w_sub (workers t ! k))
            \<and> prefix (topic_filter (w_sub (workers t ! k))) f
            \<and> c_pc (coll t) = AtWhile \<and> \<not> pull_closed (coll t)
            \<and> (\<forall>n<length (workers t). w_pipe (workers t ! n) = [])"
    for k f
  proof (rule frame_still_published [where i=i])
    show "length (workers ?t') = length (workers t)" using common by simp
    show "\<forall>k. k \<noteq> i \<longrightarrow> workers ?t' ! k = workers t ! k" using common by simp
    show "w_pipe (workers ?t' ! i) = w_pipe (workers t ! i)" using common by simp
    show "coll ?t' = coll t" using common by simp
    show "thr_running ?t'" using common assms(2) by simp
  qed (use that in simp_all)
  show ?thesis
    using in_try in_setup common assms(2) progress by (intro conjI allI impI) simp_all
qed

theorem worker_failure_isolated_witness:
  "0 < length (workers (thr_run [WorkerStep 0 None] thr_init))
   \<and> thr_running (thr_run [WorkerStep 0 None] thr_init)
   \<and> raises_in_try Poll (workers (thr_run [WorkerStep 0 None] thr_init) ! 0)
   \<and> w_pc (workers (worker_step (Some (0, Poll, ZMQError)) 0
        (thr_run [WorkerStep 0 None] thr_init)) ! 0) = Returned
   \<and> thr_logged (worker_step (Some (0, Poll, ZMQError)) 0
        (thr_run [WorkerStep 0 None] thr_init))
       = [LogWorkerError ''Thread-Camera'', LogWorkerShutdown ''Thread-Camera'' 0]
   \<and> w_pc (workers (worker_step (Some (0, Poll, ZMQError)) 0
        (thr_run [WorkerStep 0 None] thr_init)) ! 2) = AtWhile
   \<and> pub_sent (coll (thr_run [TArrive 2 ''gps x'', WorkerStep 2 None, WorkerStep 2 None,
                              CollectorStep 0 None, CollectorStep 0 None]
        (worker_step (Some (0, Poll, ZMQError)) 0 (thr_run [WorkerStep 0 None] thr_init))))
       = [''gps x'']
   \<and> 0 < length (workers (thr_run [WorkerStep 1 None, WorkerStep 2 None] thr_boot))
   \<and> thr_running (thr_run [WorkerStep 1 None, WorkerStep 2 None] thr_boot)
   \<and> w_pc (workers (thr_run [WorkerStep 1 None, WorkerStep 2 None] thr_boot) ! 0) = AtSetup
   \<and> w_pc (workers (worker_step (Some (0, Poll, ZMQError)) 0
        (thr_run [WorkerStep 1 None, WorkerStep 2 None] thr_boot)) ! 0) = Raised ZMQError
   \<and> thr_logged (worker_step (Some (0, Poll, ZMQError)) 0
        (thr_run [WorkerStep 1 None, WorkerStep 2 None] thr_boot))
       = [LogWorkerConnected ''Thread-Inductive'' ''espira'',
          LogWorkerConnected ''Thread-GPS'' ''gps'']
   \<and> pub_sent (coll (thr_run [TArrive 2 ''gps x'', WorkerStep 2 None, WorkerStep 2 None,
                              CollectorStep 0 None, CollectorStep 0 None]
        (worker_step (Some (0, Poll, ZMQError)) 0
           (thr_run [WorkerStep 1 None, WorkerStep 2 None] thr_boot))))
       = [''gps x'']"
proof -
  let ?t = "thr_run [WorkerStep 0 None] thr_init"
  let ?b = "thr_run [WorkerStep 1 None, WorkerStep 2 None] thr_boot"
  have h: "0 < length (workers ?t)" "thr_running ?t"
    by code_simp+
  have h3: "raises_in_try Poll (workers ?t ! 0)" by code_simp
  then have h3': "w_pc (workers ?t ! 0) = AtSetup \<or> raises_in_try Poll (workers ?t ! 0)" by simp
  have nt: "w_pc (workers ?t ! 0) \<noteq> AtSetup" by code_simp
  have g: "2 < length (workers ?t) \<and> (2::nat) \<noteq> 0 \<and> w_pc (workers ?t ! 2) = AtWhile
            \<and> inbox (w_sub (workers ?t ! 2)) = [] \<and> \<not> sub_closed (w_sub (workers ?t ! 2))
            \<and> prefix (topic_filter (w_sub (workers ?t ! 2))) ''gps x''
            \<and> c_pc (coll ?t) = AtWhile \<and> \<not> pull_closed (coll ?t)
            \<and> (\<forall>n<length (workers ?t). w_pipe (workers ?t ! n) = [])"
    by code_simp
  have v: "thr_logged ?t = []" "w_name (workers ?t ! 0) = ''Thread-Camera''"
    "w_count (workers ?t ! 0) = 0" "pub_sent (coll ?t) = []" "w_pc (workers ?t ! 2) = AtWhile"
    by code_simp+
  note inst = worker_failure_isolated [OF h h3', of 0 0]
  from inst g have p: "pub_sent (coll (thr_run [TArrive 2 ''gps x'', WorkerStep 2 None,
        WorkerStep 2 None, CollectorStep 0 None, CollectorStep 0 None]
        (worker_step (Some (0, Poll, ZMQError)) 0 ?t))) = pub_sent (coll ?t) @ [''gps x'']"
    by blast
  from inst have o: "workers (worker_step (Some (0, Poll, ZMQError)) 0 ?t) ! 2 = workers ?t ! 2"
    by simp
  from inst h3 have r: "w_pc (workers (worker_step (Some (0, Poll, ZMQError)) 0 ?t) ! 0) = Returned"
    "thr_logged (worker_step (Some (0, Poll, ZMQError)) 0 ?t) =
       thr_logged ?t @ [LogWorkerError (w_name (workers ?t ! 0)),
                        LogWorkerShutdown (w_name (workers ?t ! 0)) (w_count (workers ?t ! 0))]"
    by blast+
  have first: "w_pc (workers (worker_step (Some (0, Poll, ZMQError)) 0 ?t) ! 0) = Returned
     \<and> thr_logged (worker_step (Some (0, Poll, ZMQError)) 0 ?t)
         = [LogWorkerError ''Thread-Camera'', LogWorkerShutdown ''Thread-Camera'' 0]
     \<and> w_pc (workers (worker_step (Some (0, Poll, ZMQError)) 0 ?t) ! 2) = AtWhile
     \<and> pub_sent (coll (thr_run [TArrive 2 ''gps x'', WorkerStep 2 None, WorkerStep 2 None,
                              CollectorStep 0 None, CollectorStep 0 None]
          (worker_step (Some (0, Poll, ZMQError)) 0 ?t))) = [''gps x'']"
    using r p o v by simp
  have hb: "0 < length (workers ?b)" "thr_running ?b"
    by code_simp+
  have hb3: "w_pc (workers ?b ! 0) = AtSetup" by code_simp
  then have hb3': "w_pc (workers ?b ! 0) = AtSetup \<or> raises_in_try Poll (workers ?b ! 0)" by simp
  have gb: "2 < length (workers ?b) \<and> (2::nat) \<noteq> 0 \<and> w_pc (workers ?b ! 2) = AtWhile
            \<and> inbox (w_sub (workers ?b ! 2)) = [] \<and> \<not> sub_closed (w_sub (workers ?b ! 2))
            \<and> prefix (topic_filter (w_sub (workers ?b ! 2))) ''gps x''
            \<and> c_pc (coll ?b) = AtWhile \<and> \<not> pull_closed (coll ?b)
            \<and> (\<forall>n<length (workers ?b). w_pipe (workers ?b ! n) = [])"
    by code_simp
  have vb: "thr_logged ?b = [LogWorkerConnected ''Thread-Inductive'' ''espira'',
                             LogWorkerConnected ''Thread-GPS'' ''gps'']"
    "pub_sent (coll ?b) = []"
    by code_simp+
  note instb = worker_failure_isolated [OF hb hb3', of 0 0]
  from instb gb have pb: "pub_sent (coll (thr_run [TArrive 2 ''gps x'', WorkerStep 2 None,
        WorkerStep 2 None, CollectorStep 0 None, CollectorStep 0 None]
        (worker_step (Some (0, Poll, ZMQError)) 0 ?b))) = pub_sent (coll ?b) @ [''gps x'']"
    by blast
  from instb hb3 have rb: "workers (worker_step (Some (0, Poll, ZMQError)) 0 ?b) ! 0
        = (workers ?b ! 0)\<lparr>w_pc := Raised ZMQError\<rparr>"
    "thr_logged (worker_step (Some (0, Poll, ZMQError)) 0 ?b) = thr_logged ?b"
    by blast+
  have second: "w_pc (workers (worker_step (Some (0, Poll, ZMQError)) 0 ?b) ! 0) = Raised ZMQError
     \<and> thr_logged (worker_step (Some (0, Poll, ZMQError)) 0 ?b)
         = [LogWorkerConnected ''Thread-Inductive'' ''espira'',
            LogWorkerConnected ''Thread-GPS'' ''gps'']
     \<and> pub_sent (coll (thr_run [TArrive 2 ''gps x'', WorkerStep 2 None, WorkerStep 2 None,
                              CollectorStep 0 None, CollectorStep 0 None]
          (worker_step (Some (0, Poll, ZMQError)) 0 ?b))) = [''gps x'']"
    using rb pb vb by simp
  show ?thesis using h h3 first hb hb3 second by (intro conjI) blast+
qed

theorem worker_setup_failure_counterexample:
  "thr_running thr_boot
   \<and> w_pc (workers (thr_run [WorkerStep 0 (Some (0, Poll, ZMQError))] thr_boot) ! 0)
       = Raised ZMQError
   \<and> thr_logged (thr_run [WorkerStep 0 (Some (0, Poll, ZMQError))] thr_boot) = []
   \<and> \<not> sub_closed (w_sub (workers (thr_run [WorkerStep 0 (Some (0, Poll, ZMQError))] thr_boot) ! 0))
   \<and> \<not> w_push_closed (workers (thr_run [WorkerStep 0 (Some (0, Poll, ZMQError))] thr_boot) ! 0)"
  by code_simp




section \<open>Bounded waits and leaving the loops\<close>

lemma std_except_flag: "running (std_except e s) = running s \<and> exited (std_pc (std_except e s))"
  by (cases e) (simp_all add: std_except_def std_finally_def)

lemma std_iteration_left:
  "running (std_iteration flt s) = running s
   \<and> actions_left (std_pc (std_iteration flt s)) \<le> 1"
proof (cases "raised_in flt Poll")
  case (Some e)
  then show ?thesis using std_except_flag [of e s]
    by (cases "std_pc (std_except e s)") (simp_all add: std_iteration_def)
next
  case None
  let ?socks = "map (\<lambda>sub. inbox sub \<noteq> []) (subscribers s)"
  have pp: "poller_poll (Some 1000) (subscribers s) = Some ?socks"
    by (simp add: poller_poll_def zmq_poll_def Let_def)
  obtain out s' where l: "std_for_subs flt ?socks [0..<length (subscribers s)] s = (out, s')"
    by (cases "std_for_subs flt ?socks [0..<length (subscribers s)] s")
  note p = std_for_subs_pc [OF l]
  show ?thesis
  proof (cases out)
    case Normal
    with None pp l p show ?thesis by (simp add: std_iteration_def)
  next
    case (Raise e)
    with None pp l p show ?thesis using std_except_flag [of e s']
      by (cases "std_pc (std_except e s')") (simp_all add: std_iteration_def)
  next
    case Block
    with None pp l p show ?thesis by (simp add: std_iteration_def)
  qed
qed

lemma std_step_not_setup:
  assumes "std_pc s \<noteq> AtSetup"
  shows "std_pc (std_step flt s) \<noteq> AtSetup"
proof (cases "std_pc s")
  case AtWhile
  then show ?thesis by (simp add: std_step_def std_finally_def)
next
  case AtPoll
  then show ?thesis using std_iteration_left [of flt s] by (auto simp add: std_step_def)
qed (insert assms, simp_all add: std_step_def)

lemma std_apply_not_setup:
  assumes "std_pc s \<noteq> AtSetup"
  shows "std_pc (std_apply s ev) \<noteq> AtSetup"
  using assms std_step_not_setup [of s]
  by (cases ev) (simp_all add: std_signal_handler_def)

lemma std_run_not_setup:
  assumes "std_pc s \<noteq> AtSetup"
  shows "std_pc (std_run evs s) \<noteq> AtSetup"
proof (induction evs rule: rev_induct)
  case Nil
  then show ?case using assms by (simp add: std_run_def)
next
  case (snoc ev evs)
  then show ?case using std_apply_not_setup [of "std_run evs s" ev] by (simp add: std_run_snoc)
qed

lemma std_step_left:
  assumes "std_pc s \<noteq> AtSetup"
  shows "running (std_step flt s) = running s
   \<and> (\<not> running s \<longrightarrow> actions_left (std_pc (std_step flt s)) \<le> actions_left (std_pc s) - 1)"
proof (cases "std_pc s")
  case AtWhile
  then show ?thesis by (simp add: std_step_def std_finally_def)
next
  case AtPoll
  then show ?thesis using std_iteration_left [of flt s] by (simp add: std_step_def)
qed (insert assms, simp_all add: std_step_def)

lemma std_apply_left:
  assumes "\<not> running s" and ns: "std_pc s \<noteq> AtSetup"
  shows "\<not> running (std_apply s ev)
     \<and> actions_left (std_pc (std_apply s ev))
          \<le> actions_left (std_pc s) - (if std_is_step ev then 1 else 0)"
proof (cases ev)
  case (Arrive i f)
  then show ?thesis using assms by simp
next
  case Signal
  then show ?thesis by (simp add: std_signal_handler_def)
next
  case (Step flt)
  then show ?thesis using assms std_step_left [OF ns, of flt] by simp
qed

lemma std_run_left:
  assumes "\<not> running s" and ns: "std_pc s \<noteq> AtSetup"
  shows "\<not> running (std_run evs s)
     \<and> actions_left (std_pc (std_run evs s)) \<le> actions_left (std_pc s) - std_steps evs"
proof (induction evs rule: rev_induct)
  case Nil
  then show ?case using assms by (simp add: std_run_def std_steps_def)
next
  case (snoc ev evs)
  from snoc std_apply_left [OF _ std_run_not_setup [OF ns], of evs ev]
  show ?case by (auto simp: std_run_snoc std_steps_def)
qed

lemma actions_left_le_2: "p \<noteq> AtSetup \<Longrightarrow> actions_left p \<le> 2"
  by (cases p) simp_all

lemma exited_iff: "exited p \<longleftrightarrow> actions_left p = 0 \<and> p \<noteq> Blocked"
  by (cases p) simp_all

lemma std_run_append: "std_run (xs @ ys) s = std_run ys (std_run xs s)"
  by (simp add: std_run_def)

lemma std_never_blocked: "std_pc (std_run evs std_init) \<noteq> Blocked"
  using std_run_inv [of evs] by (simp add: std_inv_def)

lemma std_exits:
  assumes "\<not> running (std_run evs std_init)" "2 \<le> std_steps evs'"
  shows "exited (std_pc (std_run (evs @ evs') std_init))"
proof -
  have ns: "std_pc (std_run evs std_init) \<noteq> AtSetup"
    by (rule std_run_not_setup) (simp add: std_init_def)
  from std_run_left [OF assms(1) ns, of evs'] actions_left_le_2 [OF ns] assms(2)
  have "actions_left (std_pc (std_run (evs @ evs') std_init)) = 0"
    by (simp add: std_run_append)
  with std_never_blocked [of "evs @ evs'"] show ?thesis by (simp add: exited_iff)
qed

lemma exited_left: "exited p \<Longrightarrow> actions_left p = 0"
  by (cases p) simp_all

lemma worker_except_left:
  assumes "i < length (workers s)"
  shows "length (workers (worker_except e i s)) = length (workers s)
     \<and> (\<forall>k. k \<noteq> i \<longrightarrow> workers (worker_except e i s) ! k = workers s ! k)
     \<and> coll (worker_except e i s) = coll s
     \<and> thr_running (worker_except e i s) = thr_running s
     \<and> actions_left (w_pc (workers (worker_except e i s) ! i)) = 0"
  using worker_except_shape [OF assms, of e] assms by (cases e) auto

lemma worker_iteration_left:
  assumes i: "i < length (workers s)"
  shows "length (workers (worker_iteration flt i s)) = length (workers s)
     \<and> (\<forall>k. k \<noteq> i \<longrightarrow> workers (worker_iteration flt i s) ! k = workers s ! k)
     \<and> coll (worker_iteration flt i s) = coll s
     \<and> thr_running (worker_iteration flt i s) = thr_running s
     \<and> actions_left (w_pc (workers (worker_iteration flt i s) ! i)) \<le> 1"
proof -
  let ?w = "workers s ! i"
  show ?thesis
  proof (cases "raised_in flt Poll")
    case (Some e)
    then show ?thesis using worker_except_left [OF i, of e]
      by (simp add: worker_iteration_result Let_def)
  next
    case np: None
    show ?thesis
    proof (cases "inbox (w_sub ?w)")
      case Nil
      with np i show ?thesis
        by (simp add: worker_iteration_result Let_def set_worker_def)
    next
      case (Cons m rest)
      show ?thesis
      proof (cases "raised_in flt Recv")
        case (Some e)
        then show ?thesis using worker_except_left [OF i, of e] np Cons
          by (simp add: worker_iteration_result Let_def)
      next
        case nr: None
        show ?thesis
        proof (cases "raised_in flt Send")
          case (Some e)
          let ?s1 = "set_worker i (?w\<lparr>w_sub := (w_sub ?w)\<lparr>inbox := rest\<rparr>\<rparr>) s"
          have i1: "i < length (workers ?s1)" using i by (simp add: set_worker_def)
          have "worker_iteration flt i s = worker_except e i ?s1"
            using np nr Cons Some by (simp add: worker_iteration_result Let_def)
          then show ?thesis using worker_except_left [OF i1, of e] i
            by (simp add: set_worker_def)
        next
          case None
          with np nr Cons i show ?thesis
            by (simp add: worker_iteration_result Let_def set_worker_def)
        qed
      qed
    qed
  qed
qed

lemma worker_step_left:
  assumes i: "i < length (workers s)"
  shows "length (workers (worker_step flt i s)) = length (workers s)
     \<and> (\<forall>k. k \<noteq> i \<longrightarrow> workers (worker_step flt i s) ! k = workers s ! k)
     \<and> coll (worker_step flt i s) = coll s
     \<and> thr_running (worker_step flt i s) = thr_running s
     \<and> (\<not> thr_running s \<longrightarrow>
           actions_left (w_pc (workers (worker_step flt i s) ! i))
             \<le> actions_left (w_pc (workers s ! i)) - 1)"
proof (cases "w_pc (workers s ! i)")
  case AtWhile
  then show ?thesis using i
    by (simp add: worker_step_def worker_finally_def set_worker_def Let_def)
next
  case AtPoll
  then show ?thesis using worker_iteration_left [OF i, of flt]
    by (simp add: worker_step_def)
next
  case AtSetup
  then show ?thesis using i
    by (cases flt) (auto simp add: worker_step_def worker_setup_def set_worker_def Let_def)
next
  case Blocked
  show ?thesis
  proof (cases flt)
    case None
    with Blocked show ?thesis by (simp add: worker_step_def)
  next
    case (Some a)
    obtain j c e where a: "a = (j, c, e)" by (cases a)
    with Some Blocked have "worker_step flt i s = worker_except e i s"
      by (simp add: worker_step_def)
    then show ?thesis using worker_except_left [OF i, of e] by simp
  qed
qed (simp_all add: worker_step_def)

lemma collector_except_left:
  "workers (collector_except e s) = workers s
   \<and> thr_running (collector_except e s) = thr_running s
   \<and> actions_left (c_pc (coll (collector_except e s))) = 0"
  using collector_except_shape [of e s] by (cases e) auto

lemma collector_iteration_left:
  "map w_pc (workers (collector_iteration k flt s)) = map w_pc (workers s)
   \<and> thr_running (collector_iteration k flt s) = thr_running s
   \<and> actions_left (c_pc (coll (collector_iteration k flt s))) \<le> 1"
proof (cases "raised_in flt Poll")
  case (Some e)
  then show ?thesis using collector_except_left [of e s]
    by (simp add: collector_iteration_def)
next
  case np: None
  show ?thesis
  proof (cases "\<exists>w \<in> set (workers s). w_pipe w \<noteq> []")
    case False
    with np show ?thesis by (simp add: collector_iteration_def zmq_poll_def)
  next
    case True
    show ?thesis
    proof (cases "raised_in flt Recv")
      case (Some e)
      then show ?thesis using collector_except_left [of e s] np True
        by (simp add: collector_iteration_def zmq_poll_def)
    next
      case nr: None
      show ?thesis
      proof (cases "pull_recv k (workers s)")
        case None
        with np nr True show ?thesis by (simp add: collector_iteration_def zmq_poll_def)
      next
        case (Some a)
        obtain m ws' where a: "a = (m, ws')" by (cases a)
        from pull_recv_Some [of k "workers s" m ws'] Some a obtain i rest where
          "i < length (workers s)" "ws' = (workers s)[i := (workers s ! i)\<lparr>w_pipe := rest\<rparr>]"
          by auto
        then have pcs: "map w_pc ws' = map w_pc (workers s)"
          by (simp add: map_update list_update_same_conv)
        show ?thesis
        proof (cases "raised_in flt Send")
          case (Some e)
          then show ?thesis
            using collector_except_left [of e "s\<lparr>workers := ws'\<rparr>"] np nr True \<open>pull_recv k (workers s) = Some a\<close> a pcs
            by (simp add: collector_iteration_def zmq_poll_def)
        next
          case None
          then show ?thesis
            using np nr True \<open>pull_recv k (workers s) = Some a\<close> a pcs
            by (simp add: collector_iteration_def zmq_poll_def)
        qed
      qed
    qed
  qed
qed

lemma collector_step_left:
  assumes "c_pc (coll s) \<noteq> AtSetup"
  shows "map w_pc (workers (collector_step k flt s)) = map w_pc (workers s)
   \<and> thr_running (collector_step k flt s) = thr_running s
   \<and> c_pc (coll (collector_step k flt s)) \<noteq> AtSetup
   \<and> (\<not> thr_running s \<longrightarrow>
         actions_left (c_pc (coll (collector_step k flt s))) \<le> actions_left (c_pc (coll s)) - 1)"
proof (cases "c_pc (coll s)")
  case AtWhile
  then show ?thesis by (simp add: collector_step_def collector_finally_def Let_def)
next
  case AtPoll
  then show ?thesis using collector_iteration_left [of k flt s]
    by (auto simp add: collector_step_def)
qed (insert assms, simp_all add: collector_step_def)

lemma thr_apply_coll_not_setup:
  assumes ns: "c_pc (coll s) \<noteq> AtSetup"
  shows "c_pc (coll (thr_apply s ev)) \<noteq> AtSetup"
proof (cases ev)
  case (TArrive j f)
  then show ?thesis using ns by (simp add: set_worker_def)
next
  case TSignal
  then show ?thesis using ns by (simp add: thr_signal_handler_def)
next
  case (WorkerStep j flt)
  show ?thesis
  proof (cases "j < length (workers s)")
    case False
    with WorkerStep show ?thesis using ns by simp
  next
    case True
    with WorkerStep ns worker_step_left [OF True, of flt] show ?thesis by simp
  qed
next
  case (CollectorStep k flt)
  with collector_step_left [OF ns, of k flt] show ?thesis by simp
qed

lemma thr_run_coll_not_setup:
  assumes ns: "c_pc (coll s) \<noteq> AtSetup"
  shows "c_pc (coll (thr_run evs s)) \<noteq> AtSetup"
proof (induction evs rule: rev_induct)
  case Nil
  then show ?case using ns by (simp add: thr_run_def)
next
  case (snoc ev evs)
  then show ?case using thr_apply_coll_not_setup [of "thr_run evs s" ev]
    by (simp add: thr_run_snoc)
qed

lemma thr_apply_worker_left:
  assumes nr: "\<not> thr_running s" and i: "i < length (workers s)"
    and ns: "c_pc (coll s) \<noteq> AtSetup"
  shows "\<not> thr_running (thr_apply s ev)
     \<and> length (workers (thr_apply s ev)) = length (workers s)
     \<and> actions_left (w_pc (workers (thr_apply s ev) ! i))
          \<le> actions_left (w_pc (workers s ! i)) - (if is_worker_step i ev then 1 else 0)"
proof (cases ev)
  case (TArrive j f)
  then show ?thesis using nr i
    by (cases "j = i") (simp_all add: set_worker_def)
next
  case TSignal
  then show ?thesis by (simp add: thr_signal_handler_def)
next
  case (WorkerStep j flt)
  show ?thesis
  proof (cases "j < length (workers s)")
    case False
    with WorkerStep i show ?thesis using nr by auto
  next
    case True
    note l = worker_step_left [OF True, of flt]
    show ?thesis
    proof (cases "j = i")
      case True
      with WorkerStep l nr i show ?thesis by simp
    next
      case False
      with WorkerStep l nr i \<open>j < length (workers s)\<close> show ?thesis by simp
    qed
  qed
next
  case (CollectorStep k flt)
  note l = collector_step_left [OF ns, of k flt]
  from l have len: "length (workers (collector_step k flt s)) = length (workers s)"
    by (auto dest: arg_cong [where f=length])
  from l i len have "w_pc (workers (collector_step k flt s) ! i) = w_pc (workers s ! i)"
    by (metis nth_map)
  with CollectorStep l nr len show ?thesis by simp
qed

lemma thr_run_worker_left:
  assumes nr: "\<not> thr_running s" and i: "i < length (workers s)"
    and ns: "c_pc (coll s) \<noteq> AtSetup"
  shows "\<not> thr_running (thr_run evs s)
     \<and> length (workers (thr_run evs s)) = length (workers s)
     \<and> actions_left (w_pc (workers (thr_run evs s) ! i))
          \<le> actions_left (w_pc (workers s ! i)) - worker_steps i evs"
proof (induction evs rule: rev_induct)
  case Nil
  then show ?case using nr by (simp add: thr_run_def worker_steps_def)
next
  case (snoc ev evs)
  then have a: "\<not> thr_running (thr_run evs s)" "i < length (workers (thr_run evs s))"
    using i by simp_all
  from snoc thr_apply_worker_left [OF a thr_run_coll_not_setup [OF ns], of ev]
  show ?case by (auto simp: thr_run_snoc worker_steps_def)
qed

lemma thr_apply_collector_left:
  assumes nr: "\<not> thr_running s" and ns: "c_pc (coll s) \<noteq> AtSetup"
  shows "\<not> thr_running (thr_apply s ev)
     \<and> actions_left (c_pc (coll (thr_apply s ev)))
          \<le> actions_left (c_pc (coll s)) - (if is_collector_step ev then 1 else 0)"
proof (cases ev)
  case (TArrive j f)
  then show ?thesis using nr by (simp add: set_worker_def)
next
  case TSignal
  then show ?thesis by (simp add: thr_signal_handler_def)
next
  case (WorkerStep j flt)
  show ?thesis
  proof (cases "j < length (workers s)")
    case False
    with WorkerStep show ?thesis using nr by simp
  next
    case True
    with WorkerStep nr worker_step_left [OF True, of flt] show ?thesis by simp
  qed
next
  case (CollectorStep k flt)
  with nr collector_step_left [OF ns, of k flt] show ?thesis by simp
qed

lemma thr_run_collector_left:
  assumes nr: "\<not> thr_running s" and ns: "c_pc (coll s) \<noteq> AtSetup"
  shows "\<not> thr_running (thr_run evs s)
     \<and> actions_left (c_pc (coll (thr_run evs s)))
          \<le> actions_left (c_pc (coll s)) - collector_steps evs"
proof (induction evs rule: rev_induct)
  case Nil
  then show ?case using nr by (simp add: thr_run_def collector_steps_def)
next
  case (snoc ev evs)
  from snoc thr_apply_collector_left [OF _ thr_run_coll_not_setup [OF ns], of evs ev]
  show ?case by (auto simp: thr_run_snoc collector_steps_def)
qed

lemma collector_never_blocked: "c_pc (coll (thr_run evs thr_init)) \<noteq> Blocked"
  using thr_run_inv [of evs] by (simp add: thr_inv_def thr_base_def)

lemma collector_exits:
  assumes "\<not> thr_running (thr_run evs thr_init)" "2 \<le> collector_steps evs'"
  shows "exited (c_pc (coll (thr_run (evs @ evs') thr_init)))"
proof -
  have ns: "c_pc (coll (thr_run evs thr_init)) \<noteq> AtSetup"
    by (rule thr_run_coll_not_setup) (simp add: thr_init_def)
  from thr_run_collector_left [OF assms(1) ns, of evs'] actions_left_le_2 [OF ns] assms(2)
  have "actions_left (c_pc (coll (thr_run (evs @ evs') thr_init))) = 0"
    by (simp add: thr_run_append)
  with collector_never_blocked [of "evs @ evs'"] show ?thesis by (simp add: exited_iff)
qed

lemma collector_step_pcs:
  "map w_pc (workers (collector_step k flt s)) = map w_pc (workers s)"
proof (cases "c_pc (coll s)")
  case AtWhile
  then show ?thesis by (simp add: collector_step_def collector_finally_def Let_def)
next
  case AtPoll
  then show ?thesis using collector_iteration_left [of k flt s] by (simp add: collector_step_def)
qed (simp_all add: collector_step_def)

lemma collector_step_same_worker_pc:
  assumes "i < length (workers s)"
  shows "i < length (workers (collector_step k flt s))
     \<and> w_pc (workers (collector_step k flt s) ! i) = w_pc (workers s ! i)"
proof -
  note l = collector_step_pcs [of k flt s]
  from l have len: "length (workers (collector_step k flt s)) = length (workers s)"
    by (auto dest: arg_cong [where f=length])
  from l assms len have "w_pc (workers (collector_step k flt s) ! i) = w_pc (workers s ! i)"
    by (metis nth_map)
  with len assms show ?thesis by simp
qed

lemma collector_iteration_pull_closed:
  assumes "pull_closed (coll s)"
  shows "pull_closed (coll (collector_iteration k flt s))"
  using assms collector_except_shape
  by (auto simp add: collector_iteration_def zmq_poll_def Let_def
      split: option.splits bool.splits prod.splits)

lemma collector_step_pull_closed:
  assumes "pull_closed (coll s)"
  shows "pull_closed (coll (collector_step k flt s))"
proof (cases "c_pc (coll s)")
  case AtWhile
  then show ?thesis using assms by (simp add: collector_step_def collector_finally_def Let_def)
next
  case AtPoll
  then show ?thesis using collector_iteration_pull_closed [OF assms, of k flt]
    by (simp add: collector_step_def)
qed (insert assms, simp_all add: collector_step_def)

lemma worker_iteration_blocked:
  assumes i: "i < length (workers s)"
    and b: "w_pc (workers (worker_iteration flt i s) ! i) = Blocked"
  shows "pull_closed (coll s)"
proof (rule ccontr)
  assume open_pull: "\<not> pull_closed (coll s)"
  let ?w = "workers s ! i"
  have ex: "w_pc (workers (worker_except e i t) ! i) \<noteq> Blocked" if "i < length (workers t)" for e t
    using worker_except_shape [OF that, of e] that by (cases e) simp_all
  show False
  proof (cases "raised_in flt Poll")
    case (Some e)
    then show ?thesis using ex [OF i, of e] b
      by (simp add: worker_iteration_result Let_def)
  next
    case np: None
    show ?thesis
    proof (cases "inbox (w_sub ?w)")
      case Nil
      with np i b show ?thesis
        by (simp add: worker_iteration_result Let_def set_worker_def)
    next
      case (Cons m rest)
      show ?thesis
      proof (cases "raised_in flt Recv")
        case (Some e)
        then show ?thesis using ex [OF i, of e] np Cons b
          by (simp add: worker_iteration_result Let_def)
      next
        case nr: None
        show ?thesis
        proof (cases "raised_in flt Send")
          case (Some e)
          let ?s1 = "set_worker i (?w\<lparr>w_sub := (w_sub ?w)\<lparr>inbox := rest\<rparr>\<rparr>) s"
          have i1: "i < length (workers ?s1)" using i by (simp add: set_worker_def)
          have "worker_iteration flt i s = worker_except e i ?s1"
            using np nr Cons Some by (simp add: worker_iteration_result Let_def)
          then show ?thesis using ex [OF i1, of e] b by simp
        next
          case None
          with np nr Cons i b open_pull show ?thesis
            by (simp add: worker_iteration_result Let_def set_worker_def)
        qed
      qed
    qed
  qed
qed

lemma worker_step_blocked:
  assumes i: "i < length (workers s)"
    and b: "w_pc (workers (worker_step flt i s) ! i) = Blocked"
  shows "w_pc (workers s ! i) = Blocked \<or> pull_closed (coll s)"
proof (cases "w_pc (workers s ! i)")
  case AtSetup
  then show ?thesis using i b
    by (cases flt) (auto simp add: worker_step_def worker_setup_def set_worker_def Let_def)
next
  case AtWhile
  then show ?thesis using i b
    by (auto simp add: worker_step_def worker_finally_def set_worker_def Let_def
        split: if_splits)
next
  case AtPoll
  then show ?thesis using worker_iteration_blocked [OF i, of flt] b
    by (simp add: worker_step_def)
next
  case Blocked
  then show ?thesis by simp
next
  case Returned
  then show ?thesis using b by (simp add: worker_step_def)
next
  case (Raised e)
  then show ?thesis using b by (simp add: worker_step_def)
qed

lemma thr_apply_blocked_only:
  assumes inv: "blocked_only_when_pull_closed s"
  shows "blocked_only_when_pull_closed (thr_apply s ev)"
proof (cases ev)
  case (TArrive j f)
  show ?thesis
    unfolding blocked_only_when_pull_closed_def
  proof (intro allI impI)
    fix i assume i: "i < length (workers (thr_apply s ev))"
      and b: "w_pc (workers (thr_apply s ev) ! i) = Blocked"
    from i TArrive have il: "i < length (workers s)"
      by (simp add: set_worker_def split: if_splits)
    from b TArrive il have "w_pc (workers s ! i) = Blocked"
      by (cases "j = i") (simp_all add: set_worker_def split: if_splits)
    with inv il have "pull_closed (coll s)" by (simp add: blocked_only_when_pull_closed_def)
    then show "pull_closed (coll (thr_apply s ev))" using TArrive by (simp add: set_worker_def)
  qed
next
  case TSignal
  then show ?thesis using inv
    by (simp add: blocked_only_when_pull_closed_def thr_signal_handler_def)
next
  case (WorkerStep j flt)
  show ?thesis
  proof (cases "j < length (workers s)")
    case False
    with WorkerStep inv show ?thesis by simp
  next
    case True
    note l = worker_step_left [OF True, of flt]
    show ?thesis
      unfolding blocked_only_when_pull_closed_def
    proof (intro allI impI)
      fix i assume i: "i < length (workers (thr_apply s ev))"
        and b: "w_pc (workers (thr_apply s ev) ! i) = Blocked"
      from i WorkerStep True l have il: "i < length (workers s)" by simp
      have "pull_closed (coll s)"
      proof (cases "i = j")
        case True
        with b WorkerStep \<open>j < length (workers s)\<close>
        have "w_pc (workers (worker_step flt j s) ! j) = Blocked" by simp
        from worker_step_blocked [OF \<open>j < length (workers s)\<close> this] inv il True
        show ?thesis by (auto simp add: blocked_only_when_pull_closed_def)
      next
        case False
        with b WorkerStep True l have "w_pc (workers s ! i) = Blocked" by simp
        with inv il show ?thesis by (simp add: blocked_only_when_pull_closed_def)
      qed
      then show "pull_closed (coll (thr_apply s ev))" using WorkerStep True l by simp
    qed
  qed
next
  case (CollectorStep k flt)
  show ?thesis
    unfolding blocked_only_when_pull_closed_def
  proof (intro allI impI)
    fix i assume i: "i < length (workers (thr_apply s ev))"
      and b: "w_pc (workers (thr_apply s ev) ! i) = Blocked"
    have len: "length (workers (collector_step k flt s)) = length (workers s)"
      using collector_step_pcs [of k flt s] by (auto dest: arg_cong [where f=length])
    from i CollectorStep len have il: "i < length (workers s)" by simp
    from collector_step_same_worker_pc [OF il, of k flt] b CollectorStep
    have "w_pc (workers s ! i) = Blocked" by simp
    with inv il have "pull_closed (coll s)" by (simp add: blocked_only_when_pull_closed_def)
    then show "pull_closed (coll (thr_apply s ev))"
      using CollectorStep collector_step_pull_closed [of s k flt] by simp
  qed
qed

lemma thr_run_blocked_only: "blocked_only_when_pull_closed (thr_run evs thr_init)"
proof (induction evs rule: rev_induct)
  case Nil
  then show ?case
    by (simp add: thr_run_def blocked_only_when_pull_closed_def thr_init_def worker_start_def
        thr_sensor_ports_def less_Suc_eq)
next
  case (snoc ev evs)
  then show ?case using thr_apply_blocked_only [of "thr_run evs thr_init" ev]
    by (simp add: thr_run_snoc)
qed

text \<open>
  Once the flag is cleared, a worker of the multi-threaded relay is, after two of its own
  actions, either out of its loop or waiting in \<open>push.send_string\<close> with the
  collector's PULL socket closed.
\<close>

lemma worker_exits_or_waits:
  assumes "\<not> thr_running (thr_run evs thr_init)" "2 \<le> worker_steps i evs'"
    and i: "i < length thr_sensor_ports"
  shows "exited (w_pc (workers (thr_run (evs @ evs') thr_init) ! i))
     \<or> w_pc (workers (thr_run (evs @ evs') thr_init) ! i) = Blocked
        \<and> pull_closed (coll (thr_run (evs @ evs') thr_init))"
proof -
  have il: "i < length (workers (thr_run evs thr_init))"
    using i thr_workers_length [of evs] by simp
  have ns: "c_pc (coll (thr_run evs thr_init)) \<noteq> AtSetup"
    by (rule thr_run_coll_not_setup) (simp add: thr_init_def)
  have ws: "w_pc (workers (thr_run evs thr_init) ! i) \<noteq> AtSetup"
    by (rule thr_inv_not_setup [OF thr_run_inv il])
  from thr_run_worker_left [OF assms(1) il ns, of evs'] actions_left_le_2 [OF ws] assms(2)
  have z: "actions_left (w_pc (workers (thr_run (evs @ evs') thr_init) ! i)) = 0"
    by (simp add: thr_run_append)
  have il': "i < length (workers (thr_run (evs @ evs') thr_init))"
    using i thr_workers_length [of "evs @ evs'"] by simp
  show ?thesis
  proof (cases "w_pc (workers (thr_run (evs @ evs') thr_init) ! i) = Blocked")
    case True
    with thr_run_blocked_only [of "evs @ evs'"] il' show ?thesis
      by (simp add: blocked_only_when_pull_closed_def)
  next
    case False
    with z show ?thesis by (simp add: exited_iff)
  qed
qed

lemma worker_stays_blocked:
  assumes i: "i < length (workers s)" and b: "w_pc (workers s ! i) = Blocked"
    and q: "quiet_for i ev"
  shows "i < length (workers (thr_apply s ev))
     \<and> w_pc (workers (thr_apply s ev) ! i) = Blocked"
proof (cases ev)
  case (TArrive j f)
  then show ?thesis using i b by (cases "j = i") (simp_all add: set_worker_def)
next
  case TSignal
  then show ?thesis using i b by (simp add: thr_signal_handler_def)
next
  case (WorkerStep j flt)
  show ?thesis
  proof (cases "j < length (workers s)")
    case False
    with WorkerStep i b show ?thesis by simp
  next
    case True
    note l = worker_step_left [OF True, of flt]
    show ?thesis
    proof (cases "j = i")
      case True
      with WorkerStep q have "flt = None" by simp
      with True WorkerStep i b show ?thesis by (simp add: worker_step_def)
    next
      case False
      with WorkerStep l i b True show ?thesis by simp
    qed
  qed
next
  case (CollectorStep k flt)
  then show ?thesis using collector_step_same_worker_pc [OF i, of k flt] b by simp
qed

lemma worker_stays_blocked_run:
  assumes i: "i < length (workers s)" and b: "w_pc (workers s ! i) = Blocked"
  shows "i < length (workers (thr_run (filter (quiet_for i) evs) s))
     \<and> w_pc (workers (thr_run (filter (quiet_for i) evs) s) ! i) = Blocked"
proof (induction evs rule: rev_induct)
  case Nil
  then show ?case using i b by (simp add: thr_run_def)
next
  case (snoc ev evs)
  show ?case
  proof (cases "quiet_for i ev")
    case True
    with snoc worker_stays_blocked [of i "thr_run (filter (quiet_for i) evs) s" ev]
    show ?thesis by (simp add: thr_run_snoc)
  next
    case False
    with snoc show ?thesis by simp
  qed
qed

text \<open>
  C7. The polls of the three loops have a timeout of one second and each pass starts with
  the test of the flag, but \<open>push.send_string\<close> in the loop of
  \<open>_subscriber_worker\<close> has no timeout. A frame reaches the camera worker while it
  polls, the termination signal clears the flag, and the collector, at its loop test,
  leaves its loop and closes the PULL socket; the worker's pass then receives the frame
  and calls \<open>push.send_string\<close>, which waits. The flag is cleared and the worker is
  not out of its loop; it stays in the call whatever the producers, the other threads
  and its own scheduling do, as long as the call itself does not raise.
\<close>

theorem worker_send_waits_after_shutdown:
  "\<not> thr_running (thr_run [WorkerStep 0 None, TArrive 0 ''camara a'', TSignal,
                             CollectorStep 0 None, WorkerStep 0 None] thr_init)
   \<and> c_pc (coll (thr_run [WorkerStep 0 None, TArrive 0 ''camara a'', TSignal,
                              CollectorStep 0 None, WorkerStep 0 None] thr_init)) = Returned
   \<and> pull_closed (coll (thr_run [WorkerStep 0 None, TArrive 0 ''camara a'', TSignal,
                              CollectorStep 0 None, WorkerStep 0 None] thr_init))
   \<and> w_pc (workers (thr_run [WorkerStep 0 None, TArrive 0 ''camara a'', TSignal,
                              CollectorStep 0 None, WorkerStep 0 None] thr_init) ! 0) = Blocked
   \<and> pub_sent (coll (thr_run [WorkerStep 0 None, TArrive 0 ''camara a'', TSignal,
                              CollectorStep 0 None, WorkerStep 0 None] thr_init)) = []
   \<and> w_pc (workers (thr_run (filter (quiet_for 0) evs)
        (thr_run [WorkerStep 0 None, TArrive 0 ''camara a'', TSignal,
                  CollectorStep 0 None, WorkerStep 0 None] thr_init)) ! 0) = Blocked
   \<and> \<not> exited (w_pc (workers (thr_run (filter (quiet_for 0) evs)
        (thr_run [WorkerStep 0 None, TArrive 0 ''camara a'', TSignal,
                  CollectorStep 0 None, WorkerStep 0 None] thr_init)) ! 0))"
proof -
  let ?t = "thr_run [WorkerStep 0 None, TArrive 0 ''camara a'', TSignal,
                     CollectorStep 0 None, WorkerStep 0 None] thr_init"
  have a: "\<not> thr_running ?t" "c_pc (coll ?t) = Returned" "pull_closed (coll ?t)"
    "pub_sent (coll ?t) = []"
    by code_simp+
  have b: "0 < length (workers ?t)" "w_pc (workers ?t ! 0) = Blocked"
    by code_simp+
  from worker_stays_blocked_run [OF b, of evs] a b show ?thesis by simp
qed

end
